theory Spec2Isabelle
  imports Main "HOL-Library.Word"
begin

section \<open>The command-line chat client \<^verbatim>\<open>clclite.c\<close>\<close>

text \<open>
  A shallow embedding of the parts of \<^verbatim>\<open>clclite.c\<close> that carry state: the outbound
  write loop, the edit buffer of the input line, the escape-sequence parser of the
  virtual terminal and the scrollback buffer.

  Conventions of the embedding.
  \<^item> A C \<^verbatim>\<open>char\<close> is a \<^typ>\<open>char\<close>; the terminator \<^verbatim>\<open>'\0'\<close> is \<open>NUL\<close>.
  \<^item> \<^verbatim>\<open>size_t\<close> is a 64-bit word (arithmetic wraps), \<^verbatim>\<open>int\<close> a 32-bit word read
    as signed where the source compares it, or an \<^typ>\<open>int\<close> where it only counts rows.
  \<^item> A C array is a list; a read or write at a computed index outside the array is
    undefined behaviour in C and the value \<open>None\<close> here.
  \<^item> The curses calls are recorded as events, in the order the source makes them.
\<close>

type_synonym size_t = "64 word"

definition NUL :: char where
  "NUL = CHR 0x00"

subsection \<open>Outbound writes: \<^verbatim>\<open>do_send\<close>\<close>

text \<open>
  The two error codes of \<^verbatim>\<open><errno.h>\<close> the source names, with their Linux values
  (POSIX requires every error code to be positive).
\<close>

definition EAGAIN :: int where
  "EAGAIN = 11"

definition EINTR :: int where
  "EINTR = 4"

text \<open>
  How a call of \<^verbatim>\<open>do_send\<close> ends: it returns (with the new \<^verbatim>\<open>sent_bytes\<close>), it leaves
  the process through \<^verbatim>\<open>endwin(); ...; exit(code)\<close> after printing a message, or it is
  still inside \<^verbatim>\<open>send\<close> because the environment has answered no further call.
\<close>

datatype do_send_outcome =
    Returned size_t
  | Exited int string
  | Blocked

text \<open>
  \<^verbatim>\<open>send\<close> belongs to the environment: the list gives, for the successive calls, the
  value \<^verbatim>\<open>send\<close> returns and the \<^verbatim>\<open>errno\<close> it leaves. The arguments are \<^verbatim>\<open>len\<close> and the
  global \<^verbatim>\<open>sent_bytes\<close>. The test after a failed call is the source's: it compares
  \<^verbatim>\<open>ret\<close>, not \<^verbatim>\<open>errno\<close>, with the two codes.
\<close>

fun do_send :: "size_t \<Rightarrow> size_t \<Rightarrow> (int \<times> int) list \<Rightarrow> do_send_outcome" where
  "do_send len sent_bytes [] = (if len > 0 then Blocked else Returned sent_bytes)"
| "do_send len sent_bytes ((ret, errno) # env) =
     (if len > 0 then
        (if ret = -1 then
           (if ret \<noteq> EAGAIN \<and> ret \<noteq> EINTR
            then Exited 1 ''send() failed''
            else do_send len sent_bytes env)
         else if ret = 0 then Exited 0 ''Disconnected from server''
         else do_send (len - word_of_int ret) (sent_bytes + word_of_int ret) env)
      else Returned sent_bytes)"

subsection \<open>The edit buffer of the input line\<close>

definition array_set :: "'a list \<Rightarrow> nat \<Rightarrow> 'a \<Rightarrow> 'a list option" where
  "array_set a i v = (if i < length a then Some (a[i := v]) else None)"

definition array_get :: "'a list \<Rightarrow> nat \<Rightarrow> 'a option" where
  "array_get a i = (if i < length a then Some (a ! i) else None)"

text \<open>
  \<^verbatim>\<open>memmove(a + dst, a + src, n)\<close> inside one array: the \<open>n\<close> elements from index \<open>src\<close>
  are copied to index \<open>dst\<close>; the regions may overlap. Both regions must lie in the array.
\<close>

definition memmove :: "'a list \<Rightarrow> size_t \<Rightarrow> size_t \<Rightarrow> size_t \<Rightarrow> 'a list option" where
  "memmove a dst src n =
     (if unat dst + unat n \<le> length a \<and> unat src + unat n \<le> length a
      then Some (take (unat dst) a @ take (unat n) (drop (unat src) a) @ drop (unat dst + unat n) a)
      else None)"

text \<open>The characters of a C string: the bytes before the first terminator.\<close>

definition cstr :: "char list \<Rightarrow> char list" where
  "cstr s = takeWhile (\<lambda>c. c \<noteq> NUL) s"

definition EDITBUF_MAX :: nat where
  "EDITBUF_MAX = 1001"

text \<open>\<^verbatim>\<open>struct EDITBUF\<close>; the field \<^verbatim>\<open>size\<close> is \<open>size_eb\<close> here.\<close>

record EDITBUF =
  buf :: "char list"
  size_eb :: size_t
  pos :: size_t
  start :: size_t

text \<open>\<^verbatim>\<open>memset(&editbuf, 0, sizeof(struct EDITBUF))\<close> in \<^verbatim>\<open>main\<close>.\<close>

definition editbuf_init :: EDITBUF where
  "editbuf_init = \<lparr>buf = replicate EDITBUF_MAX NUL, size_eb = 0, pos = 0, start = 0\<rparr>"

text \<open>
  \<^verbatim>\<open>editbuf_set\<close>: \<^verbatim>\<open>snprintf\<close> writes at most \<^verbatim>\<open>EDITBUF_MAX - 1\<close> characters of the text and a
  terminator; \<^verbatim>\<open>pos\<close> and \<^verbatim>\<open>size\<close> become \<^verbatim>\<open>strlen(text)\<close>, whatever was written.
\<close>

definition editbuf_set :: "char list \<Rightarrow> EDITBUF \<Rightarrow> EDITBUF option" where
  "editbuf_set text e =
     (let s = take (EDITBUF_MAX - 1) (cstr text) in
      if length s + 1 \<le> length (buf e)
      then Some (e\<lparr>buf := s @ [NUL] @ drop (length s + 1) (buf e),
                   pos := of_nat (length (cstr text)),
                   size_eb := of_nat (length (cstr text))\<rparr>)
      else None)"

definition editbuf_insert :: "int \<Rightarrow> EDITBUF \<Rightarrow> EDITBUF option" where
  "editbuf_insert ch e =
     (if size_eb e = of_nat EDITBUF_MAX then Some e
      else if pos e = size_eb e then
        (case array_set (buf e) (unat (pos e)) (char_of ch) of
           None \<Rightarrow> None
         | Some b \<Rightarrow> Some (e\<lparr>buf := b, size_eb := size_eb e + 1, pos := size_eb e + 1\<rparr>))
      else
        (case memmove (buf e) (pos e + 1) (pos e) (size_eb e - pos e) of
           None \<Rightarrow> None
         | Some b \<Rightarrow>
             (case array_set b (unat (pos e)) (char_of ch) of
                None \<Rightarrow> None
              | Some b' \<Rightarrow> Some (e\<lparr>buf := b', pos := pos e + 1, size_eb := size_eb e + 1\<rparr>))))"

definition editbuf_bs :: "EDITBUF \<Rightarrow> EDITBUF option" where
  "editbuf_bs e =
     (if pos e = 0 then Some e
      else if pos e = size_eb e then
        Some (e\<lparr>size_eb := size_eb e - 1, pos := size_eb e - 1\<rparr>)
      else
        (case memmove (buf e) (pos e - 1) (pos e) (size_eb e - pos e) of
           None \<Rightarrow> None
         | Some b \<Rightarrow> Some (e\<lparr>buf := b, pos := pos e - 1, size_eb := size_eb e - 1\<rparr>)))"

definition editbuf_del :: "EDITBUF \<Rightarrow> EDITBUF option" where
  "editbuf_del e =
     (if pos e = size_eb e then Some e
      else if pos e = size_eb e - 1 then
        Some (e\<lparr>pos := pos e - 1, size_eb := size_eb e - 1\<rparr>)
      else
        (case memmove (buf e) (pos e) (pos e + 1) (size_eb e - pos e - 1) of
           None \<Rightarrow> None
         | Some b \<Rightarrow> Some (e\<lparr>buf := b, size_eb := size_eb e - 1\<rparr>)))"

definition editbuf_home :: "EDITBUF \<Rightarrow> EDITBUF" where
  "editbuf_home e = e\<lparr>pos := 0, start := 0\<rparr>"

definition editbuf_end :: "EDITBUF \<Rightarrow> EDITBUF" where
  "editbuf_end e = e\<lparr>pos := size_eb e\<rparr>"

definition editbuf_curleft :: "EDITBUF \<Rightarrow> EDITBUF" where
  "editbuf_curleft e = (if pos e > 0 then e\<lparr>pos := pos e - 1\<rparr> else e)"

definition editbuf_curright :: "EDITBUF \<Rightarrow> EDITBUF" where
  "editbuf_curright e = (if pos e < size_eb e then e\<lparr>pos := pos e + 1\<rparr> else e)"

text \<open>
  The curses calls of \<^verbatim>\<open>editbuf_display\<close> on \<^verbatim>\<open>win_input\<close>, with their arguments:
  \<^verbatim>\<open>mvwaddnstr(win, y, x, buf + offset, n)\<close> and \<^verbatim>\<open>wmove(win, y, x)\<close>. A \<^verbatim>\<open>size_t\<close> passed
  for an \<^verbatim>\<open>int\<close> parameter is cut to its low 32 bits.
\<close>

datatype input_call =
    WClear
  | MvWAddNStr int int size_t int
  | WMove int int

definition int_of_size_t :: "size_t \<Rightarrow> int" where
  "int_of_size_t n = sint (ucast n :: 32 word)"

text \<open>\<^verbatim>\<open>COLS\<close> is the width curses reports; in \<^verbatim>\<open>pos >= COLS\<close> it is converted to \<^verbatim>\<open>size_t\<close>.\<close>

definition editbuf_display :: "int \<Rightarrow> EDITBUF \<Rightarrow> EDITBUF \<times> input_call list" where
  "editbuf_display COLS e =
     (let e' = (if pos e \<ge> word_of_int COLS
                then e\<lparr>start := pos e - word_of_int COLS\<rparr>
                else e\<lparr>start := 0\<rparr>)
      in (e', [WClear,
               MvWAddNStr 0 0 (start e') (int_of_size_t (size_eb e' - start e')),
               WMove 0 (int_of_size_t (pos e'))]))"

text \<open>The key strokes that reach the edit buffer, and a run of them.\<close>

datatype editbuf_op =
    Set "char list"
  | Insert int
  | Backspace
  | Delete
  | CurLeft
  | CurRight
  | Home
  | End

fun editbuf_apply :: "editbuf_op \<Rightarrow> EDITBUF \<Rightarrow> EDITBUF option" where
  "editbuf_apply (Set text) e = editbuf_set text e"
| "editbuf_apply (Insert ch) e = editbuf_insert ch e"
| "editbuf_apply Backspace e = editbuf_bs e"
| "editbuf_apply Delete e = editbuf_del e"
| "editbuf_apply CurLeft e = Some (editbuf_curleft e)"
| "editbuf_apply CurRight e = Some (editbuf_curright e)"
| "editbuf_apply Home e = Some (editbuf_home e)"
| "editbuf_apply End e = Some (editbuf_end e)"

fun editbuf_run :: "editbuf_op list \<Rightarrow> EDITBUF \<Rightarrow> EDITBUF option" where
  "editbuf_run [] e = Some e"
| "editbuf_run (x # xs) e =
     (case editbuf_apply x e of None \<Rightarrow> None | Some e' \<Rightarrow> editbuf_run xs e')"

text \<open>The invariant of the specification; \<^verbatim>\<open>size_t\<close> is unsigned, so \<open>0 \<le> pos\<close> is free.\<close>

definition editbuf_inv :: "EDITBUF \<Rightarrow> bool" where
  "editbuf_inv e = (pos e \<le> size_eb e \<and> size_eb e \<le> of_nat EDITBUF_MAX \<and> length (buf e) = EDITBUF_MAX)"

text \<open>
  The operations that keep the invariant from every state: all but \<^verbatim>\<open>editbuf_del\<close>, and
  \<^verbatim>\<open>editbuf_set\<close> for a text that fits the buffer.
\<close>

definition keeps_inv :: "editbuf_op \<Rightarrow> bool" where
  "keeps_inv x = (case x of Set str \<Rightarrow> length (cstr str) \<le> EDITBUF_MAX | Delete \<Rightarrow> False | _ \<Rightarrow> True)"

subsection \<open>The virtual terminal: \<^verbatim>\<open>send_text_ansi\<close> and \<^verbatim>\<open>on_term_esc\<close>\<close>

datatype term_state_t = TERM_ASCII | TERM_ESC | TERM_ESCRUN

definition TERM_MAX_ESC :: nat where
  "TERM_MAX_ESC = 16"

definition TERM_COLOR_DEFAULT :: "32 word" where
  "TERM_COLOR_DEFAULT = 9"

definition TERM_FLAGS_DEFAULT :: "8 word" where
  "TERM_FLAGS_DEFAULT = 1"

text \<open>\<^verbatim>\<open>struct TERMINAL\<close>: \<^verbatim>\<open>esc_buf\<close> has \<^verbatim>\<open>TERM_MAX_ESC\<close> entries of type \<^verbatim>\<open>int\<close>.\<close>

record TERMINAL =
  state :: term_state_t
  esc_buf :: "32 word list"
  esc_cnt :: size_t
  flags :: "8 word"
  color :: "32 word"

text \<open>
  The curses calls on \<^verbatim>\<open>win_main\<close>: \<^verbatim>\<open>wclear\<close>, \<^verbatim>\<open>waddch(win_main, c)\<close> and
  \<^verbatim>\<open>wattron(win_main, COLOR_PAIR(n))\<close>. The terminal and the calls made so far are
  threaded together.
\<close>

datatype main_call =
    WClearMain
  | WAddCh char
  | WAttrOnColorPair "32 word"

record vt = TERMINAL +
  win_main :: "main_call list"

text \<open>The terminal as \<^verbatim>\<open>main\<close> sets it up, before any call on the window.\<close>

definition vt_init :: vt where
  "vt_init = \<lparr>state = TERM_ASCII, esc_buf = replicate TERM_MAX_ESC 0, esc_cnt = 0,
              flags = TERM_FLAGS_DEFAULT, color = TERM_COLOR_DEFAULT, win_main = []\<rparr>"

text \<open>One round of the loop of \<^verbatim>\<open>on_term_esc\<close>, for the parameter \<open>p = esc_buf[i]\<close>.\<close>

definition esc_param :: "32 word \<Rightarrow> vt \<Rightarrow> vt" where
  "esc_param p v =
     (if p = 0 then
        v\<lparr>color := TERM_COLOR_DEFAULT,
           win_main := win_main v @ [WAttrOnColorPair TERM_COLOR_DEFAULT]\<rparr>
      else if 31 \<le>s p \<and> p \<le>s 37 then
        v\<lparr>color := p - 30, win_main := win_main v @ [WAttrOnColorPair (p - 30)]\<rparr>
      else v)"

lemma esc_cnt_esc_param [simp]: "esc_cnt (esc_param p v) = esc_cnt v"
  by (simp add: esc_param_def)

lemma unat_Suc_below: "i < (n::size_t) \<Longrightarrow> unat (i + 1) = Suc (unat i)"
proof -
  assume "i < n"
  then have "unat i < unat n" by (simp add: word_less_nat_alt)
  moreover have "unat n < 2 ^ 64" using unsigned_less [of n] by simp
  ultimately show ?thesis by (simp add: unat_word_ariths)
qed

function on_term_esc_loop :: "size_t \<Rightarrow> vt \<Rightarrow> vt option" where
  "on_term_esc_loop i v =
     (if i < esc_cnt v then
        (case array_get (esc_buf v) (unat i) of
           None \<Rightarrow> None
         | Some p \<Rightarrow> on_term_esc_loop (i + 1) (esc_param p v))
      else Some v)"
  by pat_completeness auto
termination
  by (relation "measure (\<lambda>(i, v). unat (esc_cnt v) - unat i)")
    (auto simp: unat_Suc_below word_less_nat_alt)

declare on_term_esc_loop.simps [simp del]

definition on_term_esc :: "char \<Rightarrow> vt \<Rightarrow> vt option" where
  "on_term_esc cmd v = (if cmd = CHR ''m'' then on_term_esc_loop 0 v else Some v)"

definition isdigit :: "char \<Rightarrow> bool" where
  "isdigit c = (48 \<le> (of_char c :: nat) \<and> (of_char c :: nat) \<le> 57)"

text \<open>
  The body of the loop of \<^verbatim>\<open>send_text_ansi\<close>, for the byte \<open>c = text[i]\<close>. In the digit
  branch the two assignments \<^verbatim>\<open>*= 10\<close> and \<^verbatim>\<open>+= text[i] - '0'\<close> are one update; the
  arithmetic on the \<^verbatim>\<open>int\<close> parameter wraps at 32 bits (a long run of digits overflows a
  signed \<^verbatim>\<open>int\<close>, which C leaves undefined and the common targets wrap).
\<close>

definition term_byte :: "char \<Rightarrow> vt \<Rightarrow> vt option" where
  "term_byte c v =
     (case state v of
        TERM_ASCII \<Rightarrow>
          (if c = CHR 0x1B then Some (v\<lparr>state := TERM_ESC\<rparr>)
           else if c \<noteq> CHR 0x0D then Some (v\<lparr>win_main := win_main v @ [WAddCh c]\<rparr>)
           else Some v)
      | TERM_ESC \<Rightarrow>
          (if c = CHR ''['' then
             (case array_set (esc_buf v) 0 0 of
                None \<Rightarrow> None
              | Some b \<Rightarrow> Some (v\<lparr>state := TERM_ESCRUN, esc_cnt := 0, esc_buf := b\<rparr>))
           else Some (v\<lparr>state := TERM_ASCII\<rparr>))
      | TERM_ESCRUN \<Rightarrow>
          (if isdigit c then
             (let cnt = (if esc_cnt v = 0 then 1 else esc_cnt v) in
              case array_get (esc_buf v) (unat (cnt - 1)) of
                None \<Rightarrow> None
              | Some p \<Rightarrow>
                  Some (v\<lparr>esc_cnt := cnt,
                          esc_buf := (esc_buf v)[unat (cnt - 1) := p * 10 + of_nat (of_char c - 48)]\<rparr>))
           else if c = CHR '';'' then
             (if esc_cnt v < of_nat TERM_MAX_ESC then
                (case array_set (esc_buf v) (unat (esc_cnt v + 1 - 1)) 0 of
                   None \<Rightarrow> None
                 | Some b \<Rightarrow> Some (v\<lparr>esc_cnt := esc_cnt v + 1, esc_buf := b\<rparr>))
              else Some v)
           else
             (case on_term_esc c v of
                None \<Rightarrow> None
              | Some v' \<Rightarrow> Some (v'\<lparr>state := TERM_ASCII\<rparr>))))"

text \<open>\<^verbatim>\<open>send_text_ansi(text, len)\<close>: the list holds the \<open>len\<close> bytes.\<close>

fun send_text_ansi :: "char list \<Rightarrow> vt \<Rightarrow> vt option" where
  "send_text_ansi [] v = Some v"
| "send_text_ansi (c # cs) v =
     (case term_byte c v of None \<Rightarrow> None | Some v' \<Rightarrow> send_text_ansi cs v')"

text \<open>The parameter list is in order when it counts at most 16 entries of a 16-entry array.\<close>

definition term_inv :: "vt \<Rightarrow> bool" where
  "term_inv v = (esc_cnt v \<le> of_nat TERM_MAX_ESC \<and> length (esc_buf v) = TERM_MAX_ESC)"

text \<open>The terminal after \<^verbatim>\<open>ESC [ 1;2;3;4;5;6;7;8;9;10;11;12;13;14;15;16\<close>.\<close>

definition vt_full :: vt where
  "vt_full = \<lparr>state = TERM_ESCRUN,
               esc_buf = [1, 2, 3, 4, 5, 6, 7, 8, 9, 10, 11, 12, 13, 14, 15, 16],
               esc_cnt = 16, flags = TERM_FLAGS_DEFAULT, color = TERM_COLOR_DEFAULT,
               win_main = []\<rparr>"

subsection \<open>The scrollback buffer\<close>

definition MAXLINES :: nat where
  "MAXLINES = 100"

definition MAX_LINE_LENGTH :: nat where
  "MAX_LINE_LENGTH = 1001"

text \<open>
  \<^verbatim>\<open>char sbuffer[MAXLINES][MAX_LINE_LENGTH]\<close> is a list of rows, each row the bytes of
  one \<^verbatim>\<open>char[MAX_LINE_LENGTH]\<close>. A global array starts out as zeros.
\<close>

definition sbuffer_zero :: "char list list" where
  "sbuffer_zero = replicate MAXLINES (replicate MAX_LINE_LENGTH NUL)"

text \<open>
  \<^verbatim>\<open>strlen\<close> scans for the terminator; an array without one lets the scan leave the
  array. \<^verbatim>\<open>strcpy(dst, src)\<close> copies the characters of \<open>src\<close> and its terminator over the
  start of \<open>dst\<close>, which must have room for them.
\<close>

definition strlen :: "char list \<Rightarrow> nat option" where
  "strlen s = (if NUL \<in> set s then Some (length (cstr s)) else None)"

definition strcpy :: "char list \<Rightarrow> char list \<Rightarrow> char list option" where
  "strcpy dst src =
     (case strlen src of
        None \<Rightarrow> None
      | Some n \<Rightarrow>
          if n + 1 \<le> length dst then Some (take (n + 1) src @ drop (n + 1) dst) else None)"

text \<open>\<^verbatim>\<open>buffer[y]\<close> for an \<^verbatim>\<open>int y\<close>.\<close>

definition row_get :: "char list list \<Rightarrow> int \<Rightarrow> char list option" where
  "row_get buffer y =
     (if 0 \<le> y \<and> y < int (length buffer) then Some (buffer ! nat y) else None)"

text \<open>\<^verbatim>\<open>init_buffer\<close>: \<^verbatim>\<open>for (y = 0; y < MAXLINES; y++) buffer[y][0] = '\0'\<close>.\<close>

function init_rows :: "nat \<Rightarrow> char list list \<Rightarrow> char list list option" where
  "init_rows y buffer =
     (if y < MAXLINES then
        (case array_get buffer y of
           None \<Rightarrow> None
         | Some r \<Rightarrow>
             (case array_set r 0 NUL of
                None \<Rightarrow> None
              | Some r' \<Rightarrow> init_rows (y + 1) (buffer[y := r'])))
      else Some buffer)"
  by pat_completeness auto
termination
  by (relation "measure (\<lambda>(y, buffer). MAXLINES - y)") auto

declare init_rows.simps [simp del]

definition init_buffer :: "char list list \<Rightarrow> char list list option" where
  "init_buffer buffer = init_rows 0 buffer"

text \<open>
  \<^verbatim>\<open>scroll_buffer\<close>: \<^verbatim>\<open>for (y = 1; y < MAXLINES; y++) strcpy(buffer[y-1], buffer[y])\<close>, then
  \<^verbatim>\<open>buffer[y-1][0] = '\0'\<close> with the \<open>y = MAXLINES\<close> the loop ends on.
\<close>

function scroll_rows :: "nat \<Rightarrow> char list list \<Rightarrow> char list list option" where
  "scroll_rows y buffer =
     (if y < MAXLINES then
        (case array_get buffer (y - 1) of
           None \<Rightarrow> None
         | Some d \<Rightarrow>
             (case array_get buffer y of
                None \<Rightarrow> None
              | Some s \<Rightarrow>
                  (case strcpy d s of
                     None \<Rightarrow> None
                   | Some d' \<Rightarrow> scroll_rows (y + 1) (buffer[y - 1 := d']))))
      else Some buffer)"
  by pat_completeness auto
termination
  by (relation "measure (\<lambda>(y, buffer). MAXLINES - y)") auto

declare scroll_rows.simps [simp del]

definition scroll_buffer :: "char list list \<Rightarrow> char list list option" where
  "scroll_buffer buffer =
     (case scroll_rows 1 buffer of
        None \<Rightarrow> None
      | Some b \<Rightarrow>
          (case array_get b (MAXLINES - 1) of
             None \<Rightarrow> None
           | Some r \<Rightarrow>
               (case array_set r 0 NUL of
                  None \<Rightarrow> None
                | Some r' \<Rightarrow> Some (b[MAXLINES - 1 := r']))))"

text \<open>
  \<^verbatim>\<open>add_line_buffer(buffer, line, lastline)\<close>; \<open>line\<close> is the caller's array, holding the
  string with its terminator. The result is the new buffer and the returned \<^verbatim>\<open>lastline\<close>.
\<close>

definition add_line_buffer ::
  "char list list \<Rightarrow> char list \<Rightarrow> int \<Rightarrow> (char list list \<times> int) option" where
  "add_line_buffer buffer line lastline =
     (case (if lastline = int MAXLINES
            then (case scroll_buffer buffer of
                    None \<Rightarrow> None
                  | Some b \<Rightarrow> Some (b, lastline - 1))
            else Some (buffer, lastline)) of
        None \<Rightarrow> None
      | Some (b, l) \<Rightarrow>
          (case strlen line of
             None \<Rightarrow> None
           | Some n \<Rightarrow>
               (case (if n > MAX_LINE_LENGTH - 2
                      then array_set line (MAX_LINE_LENGTH - 2) NUL
                      else Some line) of
                  None \<Rightarrow> None
                | Some line' \<Rightarrow>
                    (case row_get b l of
                       None \<Rightarrow> None
                     | Some r \<Rightarrow>
                         (case strcpy r line' of
                            None \<Rightarrow> None
                          | Some r' \<Rightarrow> Some (b[nat l := r'], l + 1))))))"

text \<open>
  \<^verbatim>\<open>add_char_buffer(buffer, c, lastline)\<close>: the scan \<^verbatim>\<open>for (x = 0; buffer[lastline][x]; x++)\<close>
  is \<^verbatim>\<open>strlen\<close> of the row.
\<close>

definition add_char_buffer ::
  "char list list \<Rightarrow> char \<Rightarrow> int \<Rightarrow> (char list list \<times> int) option" where
  "add_char_buffer buffer c lastline =
     (case (if lastline = int MAXLINES
            then (case scroll_buffer buffer of
                    None \<Rightarrow> None
                  | Some b \<Rightarrow> Some (b, lastline - 1))
            else Some (buffer, lastline)) of
        None \<Rightarrow> None
      | Some (b, l) \<Rightarrow>
          (case row_get b l of
             None \<Rightarrow> None
           | Some r \<Rightarrow>
               (case strlen r of
                  None \<Rightarrow> None
                | Some x0 \<Rightarrow>
                    (let x = (if x0 > MAX_LINE_LENGTH - 2 then MAX_LINE_LENGTH - 2 else x0) in
                     case array_set r x c of
                       None \<Rightarrow> None
                     | Some r1 \<Rightarrow>
                         (case array_set r1 (x + 1) NUL of
                            None \<Rightarrow> None
                          | Some r2 \<Rightarrow>
                              Some (b[nat l := r2],
                                    if c = CHR 0x0A then l + 1 else l))))))"

text \<open>
  The globals \<^verbatim>\<open>sbuffer\<close> and \<^verbatim>\<open>last\<close> (here \<open>last_line\<close>), and the number of calls of
  \<^verbatim>\<open>beep()\<close> so far.
\<close>

record scrollback =
  sbuffer :: "char list list"
  last_line :: int
  beeps :: nat

definition scrollback_init :: scrollback where
  "scrollback_init = \<lparr>sbuffer = sbuffer_zero, last_line = 0, beeps = 0\<rparr>"

text \<open>\<^verbatim>\<open>on_text_plain\<close> and \<^verbatim>\<open>on_text_ansi\<close>, for the \<open>len\<close> bytes of the text.\<close>

fun on_text_plain :: "char list \<Rightarrow> scrollback \<Rightarrow> scrollback option" where
  "on_text_plain [] s = Some s"
| "on_text_plain (c # cs) s =
     (case add_char_buffer (sbuffer s) c (last_line s) of
        None \<Rightarrow> None
      | Some (b, l) \<Rightarrow> on_text_plain cs (s\<lparr>sbuffer := b, last_line := l\<rparr>))"

fun on_text_ansi :: "char list \<Rightarrow> scrollback \<Rightarrow> scrollback option" where
  "on_text_ansi [] s = Some s"
| "on_text_ansi (c # cs) s =
     (if c = CHR 0x07 then on_text_ansi cs (s\<lparr>beeps := beeps s + 1\<rparr>)
      else
        (case add_char_buffer (sbuffer s) c (last_line s) of
           None \<Rightarrow> None
         | Some (b, l) \<Rightarrow> on_text_ansi cs (s\<lparr>sbuffer := b, last_line := l\<rparr>)))"

text \<open>
  \<^verbatim>\<open>print_buffer\<close>: the loop \<^verbatim>\<open>for (y = startline; y <= endline; y++)\<close> sends each row to
  the terminal. The result is the value returned, the global \<^verbatim>\<open>updowntoggle\<close> and the
  terminal.
\<close>

function print_rows :: "char list list \<Rightarrow> int \<Rightarrow> int \<Rightarrow> vt \<Rightarrow> vt option" where
  "print_rows buffer y endline v =
     (if y \<le> endline then
        (case row_get buffer y of
           None \<Rightarrow> None
         | Some r \<Rightarrow>
             (case strlen r of
                None \<Rightarrow> None
              | Some n \<Rightarrow>
                  (case send_text_ansi (take n r) v of
                     None \<Rightarrow> None
                   | Some v' \<Rightarrow> print_rows buffer (y + 1) endline v')))
      else Some v)"
  by pat_completeness auto
termination
  by (relation "measure (\<lambda>(buffer, y, endline, v). nat (endline + 1 - y))") auto

declare print_rows.simps [simp del]

definition print_buffer ::
  "char list list \<Rightarrow> int \<Rightarrow> int \<Rightarrow> int \<Rightarrow> vt \<Rightarrow> (int \<times> int \<times> vt) option" where
  "print_buffer buffer startline endline updowntoggle v =
     (let v0 = v\<lparr>win_main := win_main v @ [WClearMain]\<rparr>;
          startline' = (if startline < 0 then 0 else startline)
      in if startline' > endline then Some (1, updowntoggle, v0)
         else
           (let endline' = (if endline > int MAXLINES then int MAXLINES else endline)
            in case print_rows buffer startline' endline' v0 of
                 None \<Rightarrow> None
               | Some v' \<Rightarrow> Some (0, 0, v')))"

text \<open>
  The two ways a line reaches the buffer, and a run of them on the globals.
  \<open>AppendLine text\<close> calls \<^verbatim>\<open>add_line_buffer\<close> with an array that holds the text and its
  terminator.
\<close>

datatype scrollback_op =
    AppendChar char
  | AppendLine "char list"

fun scrollback_apply :: "scrollback_op \<Rightarrow> scrollback \<Rightarrow> scrollback option" where
  "scrollback_apply (AppendChar c) s =
     (case add_char_buffer (sbuffer s) c (last_line s) of
        None \<Rightarrow> None
      | Some (b, l) \<Rightarrow> Some (s\<lparr>sbuffer := b, last_line := l\<rparr>))"
| "scrollback_apply (AppendLine text) s =
     (case add_line_buffer (sbuffer s) (text @ [NUL]) (last_line s) of
        None \<Rightarrow> None
      | Some (b, l) \<Rightarrow> Some (s\<lparr>sbuffer := b, last_line := l\<rparr>))"

fun scrollback_run :: "scrollback_op list \<Rightarrow> scrollback \<Rightarrow> scrollback option" where
  "scrollback_run [] s = Some s"
| "scrollback_run (x # xs) s =
     (case scrollback_apply x s of None \<Rightarrow> None | Some s' \<Rightarrow> scrollback_run xs s')"

text \<open>
  What the buffer holds: a row is in order when it has the array's length and a
  terminator, and the lines held are the strings of the rows below \<open>last_line\<close>.
\<close>

definition wf_row :: "char list \<Rightarrow> bool" where
  "wf_row r = (length r = MAX_LINE_LENGTH \<and> NUL \<in> set r)"

definition wf_buffer :: "char list list \<Rightarrow> bool" where
  "wf_buffer b = (length b = MAXLINES \<and> list_all wf_row b)"

definition scrollback_inv :: "scrollback \<Rightarrow> bool" where
  "scrollback_inv s = (wf_buffer (sbuffer s) \<and> 0 \<le> last_line s \<and> last_line s \<le> int MAXLINES)"

definition held_lines :: "scrollback \<Rightarrow> char list list" where
  "held_lines s = take (nat (last_line s)) (map cstr (sbuffer s))"

section \<open>Properties\<close>

subsection \<open>Outbound writes\<close>

lemma do_send_failure_is_fatal:
  "len \<noteq> 0 \<Longrightarrow> do_send len sent_bytes ((-1, errno) # env) = Exited 1 ''send() failed''"
  by (simp add: EAGAIN_def EINTR_def word_greater_zero_iff)

lemma do_send_zero_is_disconnect:
  "len \<noteq> 0 \<Longrightarrow> do_send len sent_bytes ((0, errno) # env) = Exited 0 ''Disconnected from server''"
  by (simp add: word_greater_zero_iff)

lemma do_send_partial_writes:
  "do_send 5 0 [(2, 0), (3, 0)] = Returned 5"
  by simp

text \<open>
  Claim C9. An outbound write loops until every byte is accepted, retries after a
  failure whose error code is \<^verbatim>\<open>EAGAIN\<close> or \<^verbatim>\<open>EINTR\<close>, treats every other failure as
  fatal and a zero-byte result as an orderly disconnect. The source does not retry:
  with five bytes to send, a first \<^verbatim>\<open>send\<close> that fails with \<^verbatim>\<open>errno = EINTR\<close> ends the
  process with exit code 1, although the second call would have accepted all five bytes.
\<close>

theorem do_send_transient_failure_exits:
  "do_send 5 0 [(-1, EINTR), (5, 0)] = Exited 1 ''send() failed''"
  by (simp add: EAGAIN_def EINTR_def)

subsection \<open>The edit buffer: the invariant and the operations that keep it\<close>

lemma unat_small_Suc: "unat (x::size_t) \<le> 1001 \<Longrightarrow> unat (x + 1) = Suc (unat x)"
  by (simp add: unat_word_ariths)

lemma unat_pred: "(x::size_t) \<noteq> 0 \<Longrightarrow> unat (x - 1) = unat x - 1"
  by (simp add: unat_minus_one)

lemma size_t_eq_iff: "((x::size_t) = y) = (unat x = unat y)"
  by (simp add: word_unat_eq_iff)

lemma editbuf_inv_nat:
  "editbuf_inv e =
     (unat (pos e) \<le> unat (size_eb e) \<and> unat (size_eb e) \<le> 1001 \<and> length (buf e) = 1001)"
  by (simp add: editbuf_inv_def EDITBUF_MAX_def word_le_nat_alt)

lemma editbuf_init_inv: "editbuf_inv editbuf_init"
  by (simp add: editbuf_inv_def editbuf_init_def EDITBUF_MAX_def)

lemma editbuf_insert_inv:
  "editbuf_inv e \<Longrightarrow> \<exists>e'. editbuf_insert ch e = Some e' \<and> editbuf_inv e'"
  unfolding editbuf_inv_nat editbuf_insert_def array_set_def memmove_def EDITBUF_MAX_def
  by (auto simp: unat_small_Suc unat_sub word_le_nat_alt size_t_eq_iff split: option.splits)

lemma editbuf_insert_full:
  "size_eb e = of_nat EDITBUF_MAX \<Longrightarrow> editbuf_insert ch e = Some e"
  by (simp add: editbuf_insert_def)

lemma editbuf_bs_inv:
  "editbuf_inv e \<Longrightarrow> \<exists>e'. editbuf_bs e = Some e' \<and> editbuf_inv e'"
  unfolding editbuf_inv_nat editbuf_bs_def memmove_def
  by (auto simp: unat_sub word_le_nat_alt unat_pred size_t_eq_iff split: option.splits)

text \<open>
  \<^verbatim>\<open>editbuf_del\<close> keeps the invariant everywhere but in one state: the cursor on the only
  character of the line.
\<close>

lemma editbuf_del_inv:
  "editbuf_inv e \<Longrightarrow> \<not> (pos e = 0 \<and> size_eb e = 1) \<Longrightarrow>
   \<exists>e'. editbuf_del e = Some e' \<and> editbuf_inv e'"
  unfolding editbuf_inv_nat editbuf_del_def memmove_def
  by (auto simp: unat_small_Suc unat_sub word_le_nat_alt unat_pred size_t_eq_iff
      split: option.splits)

lemma editbuf_cursor_inv:
  "editbuf_inv e \<Longrightarrow>
   editbuf_inv (editbuf_curleft e) \<and> editbuf_inv (editbuf_curright e) \<and>
   editbuf_inv (editbuf_home e) \<and> editbuf_inv (editbuf_end e)"
  unfolding editbuf_inv_nat editbuf_curleft_def editbuf_curright_def editbuf_home_def
    editbuf_end_def
  by (auto simp: unat_small_Suc word_less_nat_alt unat_pred size_t_eq_iff)

lemma editbuf_set_inv:
  "editbuf_inv e \<Longrightarrow> length (cstr text) \<le> EDITBUF_MAX \<Longrightarrow>
   \<exists>e'. editbuf_set text e = Some e' \<and> editbuf_inv e'"
  unfolding editbuf_inv_nat editbuf_set_def EDITBUF_MAX_def Let_def
  by (auto simp: unat_of_nat)

text \<open>Typing \<open>n\<close> characters at the end of a line that has room for them.\<close>

lemma editbuf_type_at_end:
  "length (buf e) = EDITBUF_MAX \<Longrightarrow> pos e = of_nat k \<Longrightarrow> size_eb e = of_nat k \<Longrightarrow>
   k + n \<le> EDITBUF_MAX \<Longrightarrow>
   \<exists>b. length b = EDITBUF_MAX \<and>
     editbuf_run (replicate n (Insert ch)) e
       = Some (e\<lparr>buf := b, size_eb := of_nat (k + n), pos := of_nat (k + n)\<rparr>)"
proof (induction n arbitrary: e k)
  case 0
  then have "e = e\<lparr>buf := buf e, size_eb := of_nat (k + 0), pos := of_nat (k + 0)\<rparr>"
    by simp
  with 0 show ?case by (intro exI [of _ "buf e"]) simp
next
  case (Suc n)
  have k: "k < 1001" using Suc.prems(4) by (simp add: EDITBUF_MAX_def)
  then have uk: "unat (of_nat k :: size_t) = k" by (simp add: unat_of_nat)
  have ne: "(of_nat k :: size_t) \<noteq> of_nat EDITBUF_MAX"
    using k by (simp add: EDITBUF_MAX_def word_unat_eq_iff unat_of_nat)
  define e1 where
    "e1 = e\<lparr>buf := (buf e)[k := char_of ch], size_eb := of_nat (Suc k), pos := of_nat (Suc k)\<rparr>"
  have step: "editbuf_insert ch e = Some e1"
    using Suc.prems(1-3) k uk ne
    by (simp add: editbuf_insert_def array_set_def e1_def EDITBUF_MAX_def)
  have "\<exists>b. length b = EDITBUF_MAX \<and>
     editbuf_run (replicate n (Insert ch)) e1
       = Some (e1\<lparr>buf := b, size_eb := of_nat (Suc k + n), pos := of_nat (Suc k + n)\<rparr>)"
    using Suc.prems by (intro Suc.IH) (simp_all add: e1_def)
  then show ?case using step by (auto simp: e1_def)
qed

text \<open>
  Claim C1. After every sequence of edit operations from the empty buffer,
  \<open>0 \<le> pos \<le> size \<le> capacity\<close>; deleting forward at any valid cursor position keeps
  this. The source breaks it: typing one character, moving home and deleting forward
  takes the branch \<^verbatim>\<open>pos == size - 1\<close> of \<^verbatim>\<open>editbuf_del\<close>, which decrements \<^verbatim>\<open>pos\<close> as well
  as \<^verbatim>\<open>size\<close>, and \<^verbatim>\<open>pos\<close>, an unsigned 0, wraps to the largest \<^verbatim>\<open>size_t\<close> over a line of
  length 0.
\<close>

theorem editbuf_del_wraps_cursor:
  "(case editbuf_run [Insert 97, Home, Delete] editbuf_init of
      None \<Rightarrow> False
    | Some e \<Rightarrow> pos e = 18446744073709551615 \<and> size_eb e = 0 \<and> \<not> editbuf_inv e)"
  by (simp add: editbuf_init_def editbuf_insert_def editbuf_home_def editbuf_del_def
      editbuf_inv_def array_set_def EDITBUF_MAX_def)

text \<open>
  Claim C8. The display of the edit buffer scrolls by \<open>pos - COLS\<close> once the cursor has
  reached the width, and puts the cursor at column \<open>pos - start\<close>, inside the window.
  The source computes \<^verbatim>\<open>start\<close> so, but moves the cursor to column \<^verbatim>\<open>pos\<close>: after 81
  characters typed in a window of 80 columns, \<^verbatim>\<open>start\<close> is 1 and the call is
  \<^verbatim>\<open>wmove(win_input, 0, 81)\<close>, neither \<open>pos - start = 80\<close> nor a column of the window.
\<close>

theorem editbuf_display_cursor_column:
  "(case editbuf_run (replicate 81 (Insert 97)) editbuf_init of
      None \<Rightarrow> False
    | Some e \<Rightarrow> pos e = 81 \<and> size_eb e = 81 \<and> start (fst (editbuf_display 80 e)) = 1 \<and>
        snd (editbuf_display 80 e) = [WClear, MvWAddNStr 0 0 1 80, WMove 0 81])"
proof -
  have "\<exists>b. length b = EDITBUF_MAX \<and>
     editbuf_run (replicate 81 (Insert 97)) editbuf_init
       = Some (editbuf_init\<lparr>buf := b, size_eb := of_nat (0 + 81), pos := of_nat (0 + 81)\<rparr>)"
    by (rule editbuf_type_at_end) (simp_all add: editbuf_init_def EDITBUF_MAX_def)
  then obtain b where "editbuf_run (replicate 81 (Insert 97)) editbuf_init
       = Some (editbuf_init\<lparr>buf := b, size_eb := 81, pos := 81\<rparr>)" by auto
  then show ?thesis
    by (simp add: editbuf_display_def int_of_size_t_def editbuf_init_def)
qed

lemma editbuf_apply_inv:
  "editbuf_inv e \<Longrightarrow> keeps_inv x \<Longrightarrow> \<exists>e'. editbuf_apply x e = Some e' \<and> editbuf_inv e'"
  using editbuf_set_inv editbuf_insert_inv editbuf_bs_inv editbuf_cursor_inv [of e]
  by (cases x) (simp_all add: keeps_inv_def)

text \<open>
  Every run of operations other than \<^verbatim>\<open>editbuf_del\<close> (and of \<^verbatim>\<open>editbuf_set\<close> only for texts
  that fit) keeps \<open>pos \<le> size \<le> EDITBUF_MAX\<close> and never leaves the array.
\<close>

theorem editbuf_run_keeps_inv:
  "editbuf_inv e \<Longrightarrow> list_all keeps_inv ops \<Longrightarrow>
   \<exists>e'. editbuf_run ops e = Some e' \<and> editbuf_inv e'"
proof (induction ops arbitrary: e)
  case Nil
  then show ?case by simp
next
  case (Cons x xs)
  then obtain e1 where "editbuf_apply x e = Some e1" "editbuf_inv e1"
    using editbuf_apply_inv [of e x] by auto
  with Cons.IH [of e1] Cons.prems(2) show ?case by simp
qed

theorem editbuf_run_keeps_inv_witness:
  "editbuf_inv editbuf_init \<and> list_all keeps_inv [Insert 97, Insert 98, CurLeft, Backspace, End, Home, CurRight]
   \<and> (\<exists>e'. editbuf_run [Insert 97, Insert 98, CurLeft, Backspace, End, Home, CurRight] editbuf_init = Some e'
        \<and> editbuf_inv e')"
proof -
  have k: "list_all keeps_inv [Insert 97, Insert 98, CurLeft, Backspace, End, Home, CurRight]"
    by (simp add: keeps_inv_def)
  from editbuf_run_keeps_inv [OF editbuf_init_inv k] editbuf_init_inv k show ?thesis by blast
qed

subsection \<open>The virtual terminal\<close>

lemma esc_buf_esc_param [simp]: "esc_buf (esc_param p v) = esc_buf v"
  by (simp add: esc_param_def)

lemma state_esc_param [simp]: "state (esc_param p v) = state v"
  by (simp add: esc_param_def)

lemma vt_init_inv: "term_inv vt_init"
  by (simp add: term_inv_def vt_init_def TERM_MAX_ESC_def)

lemma on_term_esc_loop_total:
  "term_inv v \<Longrightarrow>
   \<exists>v'. on_term_esc_loop i v = Some v' \<and> esc_cnt v' = esc_cnt v \<and> esc_buf v' = esc_buf v
      \<and> state v' = state v"
proof (induction i v rule: on_term_esc_loop.induct)
  case (1 i v)
  show ?case
  proof (cases "i < esc_cnt v")
    case True
    have "unat i < 16"
      using True "1.prems"
      by (simp add: term_inv_def TERM_MAX_ESC_def word_less_nat_alt word_le_nat_alt)
    then have g: "array_get (esc_buf v) (unat i) = Some (esc_buf v ! unat i)"
      using "1.prems" by (simp add: array_get_def term_inv_def TERM_MAX_ESC_def)
    have "term_inv (esc_param (esc_buf v ! unat i) v)"
      using "1.prems" by (simp add: term_inv_def)
    from "1.IH" [OF True g this] True g show ?thesis
      by (subst on_term_esc_loop.simps) auto
  next
    case False
    then show ?thesis by (subst on_term_esc_loop.simps) simp
  qed
qed

lemma on_term_esc_total:
  "term_inv v \<Longrightarrow>
   \<exists>v'. on_term_esc c v = Some v' \<and> esc_cnt v' = esc_cnt v \<and> esc_buf v' = esc_buf v
      \<and> state v' = state v"
  using on_term_esc_loop_total [of v 0] by (simp add: on_term_esc_def)

lemma term_byte_ascii_inv: "state v = TERM_ASCII \<Longrightarrow> term_inv v \<Longrightarrow> \<exists>v'. term_byte c v = Some v' \<and> term_inv v'"
  by (simp add: term_byte_def term_inv_def)

lemma term_byte_esc_inv: "state v = TERM_ESC \<Longrightarrow> term_inv v \<Longrightarrow> \<exists>v'. term_byte c v = Some v' \<and> term_inv v'"
  by (simp add: term_byte_def term_inv_def array_set_def TERM_MAX_ESC_def)

lemma term_byte_first_digit_inv: "state v = TERM_ESCRUN \<Longrightarrow> term_inv v \<Longrightarrow> isdigit c \<Longrightarrow> esc_cnt v = 0 \<Longrightarrow> \<exists>v'. term_byte c v = Some v' \<and> term_inv v'"
  by (simp add: term_byte_def term_inv_def array_get_def TERM_MAX_ESC_def)

lemma esc_cnt_pred_bound: "unat (esc_cnt v) \<le> 16 \<Longrightarrow> esc_cnt v \<noteq> 0 \<Longrightarrow> unat (esc_cnt v - 1) < 16"
  by (simp add: unat_minus_one)

lemma term_byte_digit_inv: "state v = TERM_ESCRUN \<Longrightarrow> term_inv v \<Longrightarrow> isdigit c \<Longrightarrow> esc_cnt v \<noteq> 0 \<Longrightarrow> unat (esc_cnt v - 1) < 16 \<Longrightarrow> length (esc_buf v) = 16 \<Longrightarrow> \<exists>v'. term_byte c v = Some v' \<and> term_inv v'"
  by (simp add: term_byte_def term_inv_def array_get_def TERM_MAX_ESC_def Let_def)

lemma term_byte_semicolon_inv: "state v = TERM_ESCRUN \<Longrightarrow> \<not> isdigit c \<Longrightarrow> c = CHR '';'' \<Longrightarrow> esc_cnt v < 16 \<Longrightarrow> length (esc_buf v) = 16 \<Longrightarrow>
   unat (esc_cnt v) < 16 \<Longrightarrow> unat (esc_cnt v + 1) = Suc (unat (esc_cnt v)) \<Longrightarrow> \<exists>v'. term_byte c v = Some v' \<and> term_inv v'"
  by (simp add: term_byte_def term_inv_def array_set_def TERM_MAX_ESC_def word_le_nat_alt)

lemma term_byte_semicolon_full_inv: "state v = TERM_ESCRUN \<Longrightarrow> \<not> isdigit c \<Longrightarrow> c = CHR '';'' \<Longrightarrow> \<not> esc_cnt v < 16 \<Longrightarrow> term_inv v \<Longrightarrow>
    \<exists>v'. term_byte c v = Some v' \<and> term_inv v'"
  by (simp add: term_byte_def TERM_MAX_ESC_def)

lemma term_byte_command_inv: "state v = TERM_ESCRUN \<Longrightarrow> \<not> isdigit c \<Longrightarrow> c \<noteq> CHR '';'' \<Longrightarrow>  term_inv v \<Longrightarrow>
   on_term_esc c v = Some v' \<Longrightarrow> esc_cnt v' = esc_cnt v \<Longrightarrow> esc_buf v' = esc_buf v \<Longrightarrow>
    \<exists>v'. term_byte c v = Some v' \<and> term_inv v'"
  by (simp add: term_byte_def term_inv_def)


lemma term_byte_inv:
  assumes inv: "term_inv v"
  shows "\<exists>v'. term_byte c v = Some v' \<and> term_inv v'"
proof (cases "state v")
  case TERM_ASCII
  then show ?thesis using inv by (rule term_byte_ascii_inv)
next
  case TERM_ESC
  then show ?thesis using inv by (rule term_byte_esc_inv)
next
  case TERM_ESCRUN
  have le: "unat (esc_cnt v) \<le> 16" and len: "length (esc_buf v) = 16"
    using inv by (simp_all add: term_inv_def TERM_MAX_ESC_def word_le_nat_alt)
  show ?thesis
  proof (cases "isdigit c")
    case True
    show ?thesis
    proof (cases "esc_cnt v = 0")
      case True
      with TERM_ESCRUN inv \<open>isdigit c\<close> show ?thesis by (rule term_byte_first_digit_inv)
    next
      case False
      with le have "unat (esc_cnt v - 1) < 16" by (rule esc_cnt_pred_bound)
      with TERM_ESCRUN inv \<open>isdigit c\<close> False show ?thesis using len by (rule term_byte_digit_inv)
    qed
  next
    case False
    show ?thesis
    proof (cases "c = CHR '';''")
      case semi: True
      show ?thesis
      proof (cases "esc_cnt v < 16")
        case True
        then have lt: "unat (esc_cnt v) < 16" by (simp add: word_less_nat_alt)
        then have "unat (esc_cnt v + 1) = Suc (unat (esc_cnt v))"
          by (simp add: unat_word_ariths)
        with TERM_ESCRUN False semi True len lt show ?thesis by (rule term_byte_semicolon_inv)
      next
        case nlt: False
        with TERM_ESCRUN False semi show ?thesis using inv by (rule term_byte_semicolon_full_inv)
      qed
    next
      case cmd: False
      from on_term_esc_total [OF inv, of c]
      obtain v' where "on_term_esc c v = Some v'" "esc_cnt v' = esc_cnt v" "esc_buf v' = esc_buf v"
        by (elim exE conjE)
      with TERM_ESCRUN False cmd inv show ?thesis by (rule term_byte_command_inv)
    qed
  qed
qed

lemma send_text_ansi_inv:
  "term_inv v \<Longrightarrow> \<exists>v'. send_text_ansi bytes v = Some v' \<and> term_inv v'"
proof (induction bytes arbitrary: v)
  case Nil
  then show ?case by simp
next
  case (Cons c cs)
  from term_byte_inv [OF Cons.prems, of c]
  obtain v1 where "term_byte c v = Some v1" "term_inv v1"
    by blast
  with Cons.IH [of v1] show ?case by simp
qed

lemma semicolon_at_limit:
  "state v = TERM_ESCRUN \<Longrightarrow> esc_cnt v = 16 \<Longrightarrow> term_byte CHR '';'' v = Some v"
  by (simp add: term_byte_def isdigit_def TERM_MAX_ESC_def)

lemma digit_at_limit:
  "state v = TERM_ESCRUN \<Longrightarrow> esc_cnt v = 16 \<Longrightarrow> length (esc_buf v) = 16 \<Longrightarrow> isdigit c \<Longrightarrow>
   term_byte c v
     = Some (v\<lparr>esc_buf := (esc_buf v)[15 := esc_buf v ! 15 * 10 + of_nat (of_char c - 48)]\<rparr>)"
  by (simp add: term_byte_def array_get_def)

lemma replicate_16_zero:
  "replicate 16 (0::32 word) = [0, 0, 0, 0, 0, 0, 0, 0, 0, 0, 0, 0, 0, 0, 0, 0]"
  by (simp add: numeral_eq_Suc)

lemma vt_full_reached:
  "send_text_ansi (CHR 0x1B # ''[1;2;3;4;5;6;7;8;9;10;11;12;13;14;15;16'') vt_init = Some vt_full"
  by (simp add: vt_init_def vt_full_def term_byte_def array_set_def array_get_def isdigit_def
      TERM_MAX_ESC_def replicate_16_zero)

text \<open>
  \<^verbatim>\<open>ESC [ m\<close> in the plain state: \<open>[\<close> sets the count of parameters to 0 (and slot 0 to 0),
  so the loop of \<^verbatim>\<open>on_term_esc\<close> runs no round and the colour stays what it was.
\<close>

lemma esc_m_without_digits:
  "state v = TERM_ASCII \<Longrightarrow> length (esc_buf v) = 16 \<Longrightarrow>
   send_text_ansi [CHR 0x1B, CHR ''['', CHR ''m''] v
     = Some (v\<lparr>esc_cnt := 0, esc_buf := (esc_buf v)[0 := 0]\<rparr>)"
  by (simp add: term_byte_def array_set_def isdigit_def on_term_esc_def on_term_esc_loop.simps)

text \<open>
  Claim C3. In the plain state the three bytes \<^verbatim>\<open>ESC [ m\<close> reset the colour to the
  default: \<open>[\<close> resets the parameter list to one entry of value 0, and \<open>m\<close> applies it.
  In the source \<open>[\<close> leaves a list of no entry, and \<open>m\<close> applies nothing: after
  \<^verbatim>\<open>ESC [ 3 3 m\<close> has set colour 3, \<^verbatim>\<open>ESC [ m\<close> leaves colour 3, where \<^verbatim>\<open>ESC [ 0 m\<close> goes
  back to the default 9.
\<close>

theorem esc_m_without_digits_keeps_color:
  "(case send_text_ansi (CHR 0x1B # ''[33m'' @ CHR 0x1B # ''[m'') vt_init of
      None \<Rightarrow> False
    | Some v \<Rightarrow> color v = 3 \<and> esc_cnt v = 0 \<and> state v = TERM_ASCII) \<and>
   (case send_text_ansi (CHR 0x1B # ''[33m'' @ CHR 0x1B # ''[0m'') vt_init of
      None \<Rightarrow> False
    | Some v \<Rightarrow> color v = TERM_COLOR_DEFAULT)"
  by (simp add: vt_init_def term_byte_def array_set_def array_get_def isdigit_def
      on_term_esc_def on_term_esc_loop.simps esc_param_def TERM_MAX_ESC_def
      TERM_COLOR_DEFAULT_def word_sle_eq)

text \<open>
  Claim C6. While the parameters of an escape sequence accumulate, the list never holds
  more than 16 entries: whatever bytes arrive, the count stays at most 16 and no access
  leaves the array. With 16 entries accumulated, a semicolon changes nothing at all,
  and a digit \<open>c\<close> goes on changing the 16th slot: \<open>p\<close> becomes \<open>p * 10 + (c - '0')\<close>.
\<close>

theorem esc_params_never_exceed_16:
  assumes "term_inv v"
  shows "(\<exists>v'. send_text_ansi bytes v = Some v' \<and> esc_cnt v' \<le> 16 \<and> length (esc_buf v') = 16)
    \<and> (state v = TERM_ESCRUN \<and> esc_cnt v = 16 \<longrightarrow>
         term_byte CHR '';'' v = Some v
         \<and> (isdigit c \<longrightarrow>
              term_byte c v
                = Some (v\<lparr>esc_buf :=
                     (esc_buf v)[15 := esc_buf v ! 15 * 10 + of_nat (of_char c - 48)]\<rparr>)))"
proof -
  have "length (esc_buf v) = 16"
    using assms by (simp add: term_inv_def TERM_MAX_ESC_def)
  moreover have "\<exists>v'. send_text_ansi bytes v = Some v' \<and> esc_cnt v' \<le> 16 \<and> length (esc_buf v') = 16"
    using send_text_ansi_inv [OF assms, of bytes] by (simp add: term_inv_def TERM_MAX_ESC_def)
  ultimately show ?thesis
    by (simp add: semicolon_at_limit digit_at_limit)
qed

theorem esc_params_never_exceed_16_witness:
  "term_inv vt_full \<and> state vt_full = TERM_ESCRUN \<and> esc_cnt vt_full = 16
   \<and> isdigit CHR ''7''
   \<and> (\<exists>v'. send_text_ansi '';7;8m'' vt_full = Some v' \<and> esc_cnt v' \<le> 16 \<and> length (esc_buf v') = 16)
   \<and> term_byte CHR '';'' vt_full = Some vt_full
   \<and> term_byte CHR ''7'' vt_full
       = Some (vt_full\<lparr>esc_buf := [1, 2, 3, 4, 5, 6, 7, 8, 9, 10, 11, 12, 13, 14, 15, 167]\<rparr>)"
proof -
  have inv: "term_inv vt_full"
    by (simp add: term_inv_def vt_full_def TERM_MAX_ESC_def)
  have st: "state vt_full = TERM_ESCRUN \<and> esc_cnt vt_full = 16"
    by (simp add: vt_full_def)
  have dg: "isdigit CHR ''7''"
    by (simp add: isdigit_def)
  note t = esc_params_never_exceed_16 [OF inv, of "'';7;8m''" "CHR ''7''"]
  have a: "\<exists>v'. send_text_ansi '';7;8m'' vt_full = Some v' \<and> esc_cnt v' \<le> 16
      \<and> length (esc_buf v') = 16"
    using t by (rule conjunct1)
  have b: "term_byte CHR '';'' vt_full = Some vt_full"
    using t [THEN conjunct2] st by blast
  have slot: "(esc_buf vt_full)[15 := esc_buf vt_full ! 15 * 10 + of_nat (of_char CHR ''7'' - 48)]
    = [1, 2, 3, 4, 5, 6, 7, 8, 9, 10, 11, 12, 13, 14, 15, 167]"
    by (simp add: vt_full_def)
  have c: "term_byte CHR ''7'' vt_full
    = Some (vt_full\<lparr>esc_buf := [1, 2, 3, 4, 5, 6, 7, 8, 9, 10, 11, 12, 13, 14, 15, 167]\<rparr>)"
    using t [THEN conjunct2] st dg unfolding slot by blast
  from inv st dg a b c show ?thesis by blast
qed

text \<open>
  The colour after some escape sequences, from the initial terminal: \<^verbatim>\<open>ESC [ 3 3 m\<close> sets
  colour 3, \<^verbatim>\<open>ESC [ 9 9 m\<close> leaves the colour as it is, and \<^verbatim>\<open>ESC [ 1 ; 3 3 m\<close> ends on
  colour 3.
\<close>

theorem esc_color_examples:
  "(case send_text_ansi (CHR 0x1B # ''[33m'') vt_init of None \<Rightarrow> False | Some v \<Rightarrow> color v = 3)
   \<and> (case send_text_ansi (CHR 0x1B # ''[99m'') vt_init of None \<Rightarrow> False | Some v \<Rightarrow> color v = TERM_COLOR_DEFAULT)
   \<and> (case send_text_ansi (CHR 0x1B # ''[1;33m'') vt_init of None \<Rightarrow> False | Some v \<Rightarrow> color v = 3)
   \<and> (case send_text_ansi (CHR 0x1B # ''[33m'' @ CHR 0x1B # ''[99m'') vt_init of None \<Rightarrow> False | Some v \<Rightarrow> color v = 3)"
  by (simp add: vt_init_def term_byte_def array_set_def array_get_def isdigit_def
      on_term_esc_def on_term_esc_loop.simps esc_param_def TERM_MAX_ESC_def
      TERM_COLOR_DEFAULT_def word_sle_eq replicate_16_zero)

subsection \<open>The scrollback buffer: strings in rows\<close>

lemma cstr_no_NUL: "NUL \<notin> set (cstr s)"
  unfolding cstr_def by (metis (mono_tags, lifting) set_takeWhileD)

lemma cstr_append_NUL: "NUL \<notin> set s \<Longrightarrow> cstr (s @ NUL # t) = s"
  unfolding cstr_def by (induction s) auto

lemma cstr_id: "NUL \<notin> set s \<Longrightarrow> cstr s = s"
  unfolding cstr_def by (induction s) auto

lemma row_split: "NUL \<in> set r \<Longrightarrow> r = cstr r @ NUL # drop (length (cstr r) + 1) r"
  unfolding cstr_def by (induction r) auto

lemma cstr_length_less: "NUL \<in> set r \<Longrightarrow> length (cstr r) < length r"
  unfolding cstr_def by (induction r) auto

lemma take_cstr: "n \<le> length (cstr r) \<Longrightarrow> take n r = take n (cstr r)"
  unfolding cstr_def by (induction r arbitrary: n) (auto simp: take_Cons' split: if_splits)

lemma take_Suc_cstr: "NUL \<in> set r \<Longrightarrow> take (Suc (length (cstr r))) r = cstr r @ [NUL]"
  unfolding cstr_def by (induction r) auto

lemma strlen_wf: "wf_row r \<Longrightarrow> strlen r = Some (length (cstr r))"
  by (simp add: strlen_def wf_row_def)

lemma strcpy_wf:
  assumes "NUL \<in> set src" "length (cstr src) + 1 \<le> length dst"
  shows "strcpy dst src = Some (cstr src @ NUL # drop (length (cstr src) + 1) dst)"
  using assms by (simp add: strcpy_def strlen_def take_Suc_cstr)

lemma strcpy_rows:
  assumes "wf_row d" "wf_row s"
  shows "\<exists>d'. strcpy d s = Some d' \<and> wf_row d' \<and> cstr d' = cstr s"
proof -
  have n: "length (cstr s) < MAX_LINE_LENGTH" using assms(2) cstr_length_less [of s] by (simp add: wf_row_def)
  then have "strcpy d s = Some (cstr s @ NUL # drop (length (cstr s) + 1) d)"
    using assms by (intro strcpy_wf) (simp_all add: wf_row_def)
  moreover have "wf_row (cstr s @ NUL # drop (length (cstr s) + 1) d)"
    using assms n by (simp add: wf_row_def)
  moreover have "cstr (cstr s @ NUL # drop (length (cstr s) + 1) d) = cstr s"
    by (rule cstr_append_NUL) (rule cstr_no_NUL)
  ultimately show ?thesis by simp
qed

text \<open>The two writes of \<^verbatim>\<open>add_char_buffer\<close>: \<open>c\<close> at \<open>x\<close> and the terminator at \<open>x + 1\<close>.\<close>

lemma put_char:
  assumes "x \<le> length (cstr r)" "x + 1 < length r"
  shows "cstr (r[x := c, x + 1 := NUL]) = take x (cstr r) @ (if c = NUL then [] else [c])"
proof -
  have "r[x := c, x + 1 := NUL] = take x r @ c # NUL # drop (x + 2) r"
  proof (rule nth_equalityI)
    show "length (r[x := c, x + 1 := NUL]) = length (take x r @ c # NUL # drop (x + 2) r)"
      using assms(2) by simp
  next
    fix i
    assume "i < length (r[x := c, x + 1 := NUL])"
    then have i: "i < length r" by simp
    consider "i < x" | "i = x" | "i = x + 1" | "x + 2 \<le> i" by linarith
    then show "r[x := c, x + 1 := NUL] ! i = (take x r @ c # NUL # drop (x + 2) r) ! i"
    proof cases
      case 1
      then show ?thesis using i by (simp add: nth_append)
    next
      case 2
      then show ?thesis using i assms(2) by (simp add: nth_append)
    next
      case 3
      then show ?thesis using i by (simp add: nth_append)
    next
      case 4
      then obtain k where k: "i = x + 2 + k" using le_Suc_ex by blast
      then show ?thesis using i by (simp add: nth_append)
    qed
  qed
  also have "take x r = take x (cstr r)" using assms(1) by (rule take_cstr)
  finally have eq: "r[x := c, x + 1 := NUL] = take x (cstr r) @ c # NUL # drop (x + 2) r" .
  have nn: "NUL \<notin> set (take x (cstr r))" using cstr_no_NUL [of r] by (meson in_set_takeD)
  show ?thesis
  proof (cases "c = NUL")
    case True
    then show ?thesis using eq nn by (simp add: cstr_append_NUL)
  next
    case False
    have "cstr ((take x (cstr r) @ [c]) @ NUL # drop (x + 2) r) = take x (cstr r) @ [c]"
      using False nn by (intro cstr_append_NUL) simp
    then show ?thesis using False eq by simp
  qed
qed

subsection \<open>The scrollback buffer: scrolling\<close>

lemma wf_buffer_nth: "wf_buffer b \<Longrightarrow> i < MAXLINES \<Longrightarrow> wf_row (b ! i)"
  by (simp add: wf_buffer_def list_all_length)

lemma wf_buffer_update: "wf_buffer b \<Longrightarrow> wf_row r \<Longrightarrow> wf_buffer (b[i := r])"
  by (cases "i < length b") (auto simp: wf_buffer_def list_all_length nth_list_update)

lemma shift_step:
  "1 \<le> y \<Longrightarrow> y < length v \<Longrightarrow>
   take y (v[y - 1 := v ! y]) @ drop (Suc y) (v[y - 1 := v ! y]) = take (y - 1) v @ drop y v"
proof -
  assume y: "1 \<le> y" "y < length v"
  then obtain k where k: "y = Suc k" by (cases y) auto
  have "take y (v[y - 1 := v ! y]) = take k v @ [v ! y]"
    using y k by (simp add: take_Suc_conv_app_nth)
  moreover have "drop (Suc y) (v[y - 1 := v ! y]) = drop (Suc y) v"
    using k by simp
  moreover have "drop y v = v ! y # drop (Suc y) v"
    using y by (simp add: Cons_nth_drop_Suc)
  ultimately show ?thesis using k by simp
qed

lemma scroll_rows_view:
  "wf_buffer b \<Longrightarrow> 1 \<le> y \<Longrightarrow> y \<le> MAXLINES \<Longrightarrow>
   \<exists>b'. scroll_rows y b = Some b' \<and> wf_buffer b' \<and>
     map cstr b' = take (y - 1) (map cstr b) @ drop y (map cstr b) @ [cstr (b ! (MAXLINES - 1))]"
proof (induction y b rule: scroll_rows.induct)
  case (1 y b)
  have len: "length b = MAXLINES" using "1.prems"(1) by (simp add: wf_buffer_def)
  show ?case
  proof (cases "y < MAXLINES")
    case False
    then have y: "y = MAXLINES" using "1.prems" by simp
    have "b \<noteq> []" using len by (auto simp: MAXLINES_def)
    then have "map cstr b = take (MAXLINES - 1) (map cstr b) @ [cstr (b ! (MAXLINES - 1))]"
      using len by (metis (no_types, lifting) One_nat_def append_butlast_last_id butlast_conv_take
          last_conv_nth last_map length_map map_is_Nil_conv)
    then show ?thesis using y len "1.prems"(1)
      by (subst scroll_rows.simps) simp
  next
    case True
    define d where "d = b ! (y - 1)"
    define s where "s = b ! y"
    have gd: "array_get b (y - 1) = Some d" and gs: "array_get b y = Some s"
      using True len by (simp_all add: array_get_def d_def s_def)
    have "wf_row d" "wf_row s"
      using "1.prems"(1) True by (simp_all add: d_def s_def wf_buffer_nth)
    then obtain d' where d': "strcpy d s = Some d'" "wf_row d'" "cstr d' = cstr s"
      using strcpy_rows by blast
    define b1 where "b1 = b[y - 1 := d']"
    have wf1: "wf_buffer b1" using "1.prems"(1) d'(2) by (simp add: b1_def wf_buffer_update)
    have "\<exists>b'. scroll_rows (y + 1) b1 = Some b' \<and> wf_buffer b' \<and>
       map cstr b' = take (y + 1 - 1) (map cstr b1) @ drop (y + 1) (map cstr b1)
          @ [cstr (b1 ! (MAXLINES - 1))]"
      using True wf1 by (intro "1.IH" [OF True gd gs d'(1), folded b1_def]) simp_all
    then obtain b' where b': "scroll_rows (y + 1) b1 = Some b'" "wf_buffer b'"
      "map cstr b' = take y (map cstr b1) @ drop (Suc y) (map cstr b1) @ [cstr (b1 ! (MAXLINES - 1))]"
      by auto
    have v1: "map cstr b1 = (map cstr b)[y - 1 := map cstr b ! y]"
      using True len d'(3) by (simp add: b1_def map_update s_def)
    have last1: "b1 ! (MAXLINES - 1) = b ! (MAXLINES - 1)"
      using True "1.prems"(2) by (simp add: b1_def)
    have "take y (map cstr b1) @ drop (Suc y) (map cstr b1) = take (y - 1) (map cstr b) @ drop y (map cstr b)"
      unfolding v1 using "1.prems"(2) True len by (intro shift_step) simp_all
    then have "map cstr b' = take (y - 1) (map cstr b) @ drop y (map cstr b) @ [cstr (b ! (MAXLINES - 1))]"
      using b'(3) last1 by simp
    moreover have "scroll_rows y b = Some b'"
      using True gd gs d'(1) b'(1) by (subst scroll_rows.simps) (simp add: b1_def)
    ultimately show ?thesis using b'(2) by simp
  qed
qed

lemma scroll_buffer_view:
  assumes "wf_buffer b"
  shows "\<exists>b'. scroll_buffer b = Some b' \<and> wf_buffer b' \<and> map cstr b' = drop 1 (map cstr b) @ [[]]"
proof -
  have len: "length b = MAXLINES" using assms by (simp add: wf_buffer_def)
  obtain b1 where b1: "scroll_rows 1 b = Some b1" "wf_buffer b1"
    "map cstr b1 = take (1 - 1) (map cstr b) @ drop 1 (map cstr b) @ [cstr (b ! (MAXLINES - 1))]"
    using scroll_rows_view [OF assms, of 1] by (auto simp: MAXLINES_def)
  have len1: "length b1 = MAXLINES" using b1(2) by (simp add: wf_buffer_def)
  define r where "r = b1 ! (MAXLINES - 1)"
  have wr: "wf_row r" using b1(2) by (simp add: r_def wf_buffer_nth MAXLINES_def)
  have g: "array_get b1 (MAXLINES - 1) = Some r"
    using len1 by (simp add: array_get_def r_def MAXLINES_def)
  have st: "array_set r 0 NUL = Some (r[0 := NUL])"
    using wr by (simp add: array_set_def wf_row_def MAX_LINE_LENGTH_def)
  have wr': "wf_row (r[0 := NUL])"
    using wr by (auto simp: wf_row_def MAX_LINE_LENGTH_def set_conv_nth intro!: exI [of _ 0])
  have c0: "cstr (r[0 := NUL]) = []"
    using wr by (cases r) (simp_all add: cstr_def wf_row_def MAX_LINE_LENGTH_def)
  define b2 where "b2 = b1[MAXLINES - 1 := r[0 := NUL]]"
  have "scroll_buffer b = Some b2"
    using b1(1) g st by (simp add: scroll_buffer_def b2_def)
  moreover have "wf_buffer b2" using b1(2) wr' by (simp add: b2_def wf_buffer_update)
  moreover have "map cstr b2 = drop 1 (map cstr b) @ [[]]"
  proof -
    have "map cstr b2 = (drop 1 (map cstr b) @ [cstr (b ! (MAXLINES - 1))])[MAXLINES - 1 := []]"
      using b1(3) c0 by (simp add: b2_def map_update)
    also have "\<dots> = drop 1 (map cstr b) @ [[]]"
      using len by (simp add: list_update_append MAXLINES_def)
    finally show ?thesis .
  qed
  ultimately show ?thesis by simp
qed

subsection \<open>The scrollback buffer: appending\<close>

lemma cstr_snoc_NUL: "cstr (t @ [NUL]) = cstr t"
  unfolding cstr_def by (induction t) auto

lemma cstr_length_le: "length (cstr t) \<le> length t"
  unfolding cstr_def by (rule length_takeWhile_le)

lemma cstr_cut:
  assumes "k \<le> length (cstr r)" "k < length r"
  shows "cstr (r[k := NUL]) = take k (cstr r)"
proof -
  have "r[k := NUL] = take k r @ NUL # drop (Suc k) r"
    using assms(2) by (rule upd_conv_take_nth_drop)
  also have "take k r = take k (cstr r)" using assms(1) by (rule take_cstr)
  finally have "r[k := NUL] = take k (cstr r) @ NUL # drop (Suc k) r" .
  moreover have "NUL \<notin> set (take k (cstr r))"
    using cstr_no_NUL [of r] by (meson in_set_takeD)
  ultimately show ?thesis by (simp add: cstr_append_NUL)
qed

lemma strcpy_into_row:
  assumes "wf_row d" "NUL \<in> set s" "length (cstr s) < MAX_LINE_LENGTH"
  shows "\<exists>d'. strcpy d s = Some d' \<and> wf_row d' \<and> cstr d' = cstr s"
proof -
  have "strcpy d s = Some (cstr s @ NUL # drop (length (cstr s) + 1) d)"
    using assms by (intro strcpy_wf) (simp_all add: wf_row_def)
  moreover have "wf_row (cstr s @ NUL # drop (length (cstr s) + 1) d)"
    using assms by (simp add: wf_row_def)
  moreover have "cstr (cstr s @ NUL # drop (length (cstr s) + 1) d) = cstr s"
    by (rule cstr_append_NUL) (rule cstr_no_NUL)
  ultimately show ?thesis by simp
qed

text \<open>The first step of both append operations: scroll when the buffer is full.\<close>

lemma make_room:
  assumes "wf_buffer b" "0 \<le> l" "l \<le> int MAXLINES"
  shows "\<exists>b0 l0.
     (if l = int MAXLINES
      then (case scroll_buffer b of None \<Rightarrow> None | Some b' \<Rightarrow> Some (b', l - 1))
      else Some (b, l)) = Some (b0, l0)
     \<and> wf_buffer b0 \<and> 0 \<le> l0 \<and> l0 < int MAXLINES
     \<and> l0 = (if l = int MAXLINES then int MAXLINES - 1 else l)
     \<and> map cstr b0 = (if l = int MAXLINES then drop 1 (map cstr b) @ [[]] else map cstr b)"
proof (cases "l = int MAXLINES")
  case True
  obtain b' where "scroll_buffer b = Some b'" "wf_buffer b'" "map cstr b' = drop 1 (map cstr b) @ [[]]"
    using scroll_buffer_view [OF assms(1)] by blast
  with True show ?thesis by (simp add: MAXLINES_def)
next
  case False
  with assms show ?thesis by simp
qed

text \<open>The line \<^verbatim>\<open>add_line_buffer\<close> copies: the string cut to \<^verbatim>\<open>MAX_LINE_LENGTH - 2\<close> characters.\<close>

lemma cut_line:
  "\<exists>line'. (if length (cstr str) > MAX_LINE_LENGTH - 2
            then array_set (str @ [NUL]) (MAX_LINE_LENGTH - 2) NUL
            else Some (str @ [NUL])) = Some line'
     \<and> NUL \<in> set line' \<and> cstr line' = take (MAX_LINE_LENGTH - 2) (cstr str)"
proof (cases "length (cstr str) > MAX_LINE_LENGTH - 2")
  case True
  have lt: "MAX_LINE_LENGTH - 2 < length (str @ [NUL])"
    using True cstr_length_le [of str] by simp
  have "cstr ((str @ [NUL])[MAX_LINE_LENGTH - 2 := NUL]) = take (MAX_LINE_LENGTH - 2) (cstr (str @ [NUL]))"
    using True lt by (intro cstr_cut) (simp_all add: cstr_snoc_NUL)
  moreover have "NUL \<in> set ((str @ [NUL])[MAX_LINE_LENGTH - 2 := NUL])"
    using lt by (rule set_update_memI)
  ultimately show ?thesis using True lt by (simp add: array_set_def cstr_snoc_NUL)
next
  case False
  then show ?thesis by (simp add: cstr_snoc_NUL)
qed

lemma add_line_buffer_view:
  assumes "wf_buffer b" "0 \<le> l" "l \<le> int MAXLINES"
  shows "\<exists>b'. add_line_buffer b (str @ [NUL]) l
        = Some (b', (if l = int MAXLINES then int MAXLINES - 1 else l) + 1)
     \<and> wf_buffer b'
     \<and> map cstr b' = (if l = int MAXLINES then drop 1 (map cstr b) @ [[]] else map cstr b)
          [nat (if l = int MAXLINES then int MAXLINES - 1 else l)
             := take (MAX_LINE_LENGTH - 2) (cstr str)]"
proof -
  define l0 where "l0 = (if l = int MAXLINES then int MAXLINES - 1 else l)"
  define v0 where "v0 = (if l = int MAXLINES then drop 1 (map cstr b) @ [[]] else map cstr b)"
  obtain b0 where room: "(if l = int MAXLINES
      then (case scroll_buffer b of None \<Rightarrow> None | Some b' \<Rightarrow> Some (b', l - 1))
      else Some (b, l)) = Some (b0, l0)"
    and b0: "wf_buffer b0" "0 \<le> l0" "l0 < int MAXLINES" "map cstr b0 = v0"
    using make_room [OF assms] unfolding l0_def v0_def by auto
  obtain line' where cut: "(if length (cstr str) > MAX_LINE_LENGTH - 2
            then array_set (str @ [NUL]) (MAX_LINE_LENGTH - 2) NUL
            else Some (str @ [NUL])) = Some line'"
    and line': "NUL \<in> set line'" "cstr line' = take (MAX_LINE_LENGTH - 2) (cstr str)"
    using cut_line [of str] by blast
  have sl: "strlen (str @ [NUL]) = Some (length (cstr str))"
    by (simp add: strlen_def cstr_snoc_NUL)
  define r where "r = b0 ! nat l0"
  have rg: "row_get b0 l0 = Some r"
    using b0 by (simp add: row_get_def r_def wf_buffer_def)
  have wr: "wf_row r" using b0 by (simp add: r_def wf_buffer_nth)
  have "length (cstr line') < MAX_LINE_LENGTH"
    using line'(2) by (simp add: MAX_LINE_LENGTH_def)
  then obtain r' where r': "strcpy r line' = Some r'" "wf_row r'" "cstr r' = cstr line'"
    using strcpy_into_row [OF wr line'(1)] by blast
  have "add_line_buffer b (str @ [NUL]) l = Some (b0[nat l0 := r'], l0 + 1)"
    unfolding add_line_buffer_def room using sl cut rg r'(1) by simp
  moreover have "wf_buffer (b0[nat l0 := r'])" using b0(1) r'(2) by (rule wf_buffer_update)
  moreover have "map cstr (b0[nat l0 := r']) = v0[nat l0 := take (MAX_LINE_LENGTH - 2) (cstr str)]"
    using b0(4) r'(3) line'(2) by (simp add: map_update)
  ultimately show ?thesis unfolding l0_def v0_def by simp
qed

lemma add_char_buffer_view:
  assumes "wf_buffer b" "0 \<le> l" "l \<le> int MAXLINES"
  shows "\<exists>b'. add_char_buffer b c l
        = Some (b', (if l = int MAXLINES then int MAXLINES - 1 else l)
                     + (if c = CHR 0x0A then 1 else 0))
     \<and> wf_buffer b'
     \<and> map cstr b' = (if l = int MAXLINES then drop 1 (map cstr b) @ [[]] else map cstr b)
          [nat (if l = int MAXLINES then int MAXLINES - 1 else l)
             := take (MAX_LINE_LENGTH - 2)
                  ((if l = int MAXLINES then drop 1 (map cstr b) @ [[]] else map cstr b)
                     ! nat (if l = int MAXLINES then int MAXLINES - 1 else l))
                @ (if c = NUL then [] else [c])]"
proof -
  define l0 where "l0 = (if l = int MAXLINES then int MAXLINES - 1 else l)"
  define v0 where "v0 = (if l = int MAXLINES then drop 1 (map cstr b) @ [[]] else map cstr b)"
  obtain b0 where room: "(if l = int MAXLINES
      then (case scroll_buffer b of None \<Rightarrow> None | Some b' \<Rightarrow> Some (b', l - 1))
      else Some (b, l)) = Some (b0, l0)"
    and b0: "wf_buffer b0" "0 \<le> l0" "l0 < int MAXLINES" "map cstr b0 = v0"
    using make_room [OF assms] unfolding l0_def v0_def by auto
  define r where "r = b0 ! nat l0"
  have len0: "length b0 = MAXLINES" using b0(1) by (simp add: wf_buffer_def)
  have rg: "row_get b0 l0 = Some r"
    using b0 by (simp add: row_get_def r_def wf_buffer_def)
  have wr: "wf_row r" using b0 by (simp add: r_def wf_buffer_nth)
  have sl: "strlen r = Some (length (cstr r))" using wr by (rule strlen_wf)
  define x where "x = (if length (cstr r) > MAX_LINE_LENGTH - 2 then MAX_LINE_LENGTH - 2 else length (cstr r))"
  have x: "x \<le> length (cstr r)" "x + 1 < length r" "x \<le> MAX_LINE_LENGTH - 2"
    using wr by (auto simp: x_def wf_row_def MAX_LINE_LENGTH_def)
  have tk: "take x (cstr r) = take (MAX_LINE_LENGTH - 2) (cstr r)"
    by (simp add: x_def)
  define r2 where "r2 = r[x := c, x + 1 := NUL]"
  have s1: "array_set r x c = Some (r[x := c])" using x by (simp add: array_set_def)
  have s2: "array_set (r[x := c]) (x + 1) NUL = Some r2" using x by (simp add: array_set_def r2_def)
  have c2: "cstr r2 = take (MAX_LINE_LENGTH - 2) (cstr r) @ (if c = NUL then [] else [c])"
    unfolding r2_def using put_char [OF x(1,2), of c] tk by simp
  have w2: "wf_row r2"
    using wr x(2) by (auto simp: r2_def wf_row_def intro: set_update_memI)
  have "add_char_buffer b c l = Some (b0[nat l0 := r2], if c = CHR 0x0A then l0 + 1 else l0)"
    unfolding add_char_buffer_def room using rg sl s1 s2 by (simp add: x_def Let_def)
  moreover have "wf_buffer (b0[nat l0 := r2])" using b0(1) w2 by (rule wf_buffer_update)
  moreover have "cstr r = v0 ! nat l0"
    using b0 len0 by (simp add: r_def flip: b0(4))
  then have "map cstr (b0[nat l0 := r2])
     = v0[nat l0 := take (MAX_LINE_LENGTH - 2) (v0 ! nat l0) @ (if c = NUL then [] else [c])]"
    using b0(4) c2 by (simp add: map_update)
  ultimately show ?thesis unfolding l0_def v0_def by auto
qed

subsection \<open>The scrollback buffer: the invariant and the lines held\<close>

lemma wf_sbuffer_zero: "wf_buffer sbuffer_zero"
  by (simp add: wf_buffer_def sbuffer_zero_def list_all_length wf_row_def MAXLINES_def MAX_LINE_LENGTH_def)

lemma scrollback_init_inv: "scrollback_inv scrollback_init"
  by (simp add: scrollback_inv_def scrollback_init_def wf_sbuffer_zero)

lemma held_lines_init: "held_lines scrollback_init = []"
  by (simp add: held_lines_def scrollback_init_def)

lemma length_held_lines: "scrollback_inv s \<Longrightarrow> length (held_lines s) = nat (last_line s)"
  by (auto simp: held_lines_def scrollback_inv_def wf_buffer_def)

lemma held_lines_le: "scrollback_inv s \<Longrightarrow> length (held_lines s) \<le> MAXLINES"
  by (auto simp: held_lines_def scrollback_inv_def wf_buffer_def)

lemma scrollback_apply_inv:
  assumes "scrollback_inv s"
  shows "\<exists>s'. scrollback_apply x s = Some s' \<and> scrollback_inv s'"
proof (cases x)
  case (AppendChar c)
  obtain b' l' where "add_char_buffer (sbuffer s) c (last_line s) = Some (b', l')" "wf_buffer b'"
    "l' = (if last_line s = int MAXLINES then int MAXLINES - 1 else last_line s)
                     + (if c = CHR 0x0A then 1 else 0)"
    using add_char_buffer_view [of "sbuffer s" "last_line s" c] assms
    by (auto simp: scrollback_inv_def)
  with AppendChar assms show ?thesis
    by (auto simp: scrollback_inv_def MAXLINES_def)
next
  case (AppendLine str)
  obtain b' l' where "add_line_buffer (sbuffer s) (str @ [NUL]) (last_line s) = Some (b', l')"
    "wf_buffer b'"
    "l' = (if last_line s = int MAXLINES then int MAXLINES - 1 else last_line s) + 1"
    using add_line_buffer_view [of "sbuffer s" "last_line s" str] assms
    by (auto simp: scrollback_inv_def)
  with AppendLine assms show ?thesis
    by (auto simp: scrollback_inv_def MAXLINES_def)
qed

lemma scrollback_run_inv:
  "scrollback_inv s \<Longrightarrow> \<exists>s'. scrollback_run ops s = Some s' \<and> scrollback_inv s'"
proof (induction ops arbitrary: s)
  case Nil
  then show ?case by simp
next
  case (Cons x xs)
  obtain s1 where "scrollback_apply x s = Some s1" "scrollback_inv s1"
    using scrollback_apply_inv [OF Cons.prems] by blast
  with Cons.IH [of s1] show ?case by simp
qed

text \<open>Appending a line to the lines held: a queue of at most \<open>MAXLINES\<close> entries.\<close>

lemma append_line_held:
  assumes "scrollback_inv s"
  shows "\<exists>s'. scrollback_apply (AppendLine str) s = Some s' \<and> scrollback_inv s'
    \<and> held_lines s' = (if length (held_lines s) = MAXLINES then drop 1 (held_lines s) else held_lines s)
         @ [take (MAX_LINE_LENGTH - 2) (cstr str)]"
proof -
  define l where "l = last_line s"
  define v where "v = map cstr (sbuffer s)"
  have lv: "length v = MAXLINES" and l: "0 \<le> l" "l \<le> int MAXLINES"
    using assms by (simp_all add: v_def l_def scrollback_inv_def wf_buffer_def)
  obtain b' where b': "add_line_buffer (sbuffer s) (str @ [NUL]) l
        = Some (b', (if l = int MAXLINES then int MAXLINES - 1 else l) + 1)"
     "wf_buffer b'"
     "map cstr b' = (if l = int MAXLINES then drop 1 v @ [[]] else v)
          [nat (if l = int MAXLINES then int MAXLINES - 1 else l)
             := take (MAX_LINE_LENGTH - 2) (cstr str)]"
    using add_line_buffer_view [of "sbuffer s" l str] assms
    unfolding l_def v_def scrollback_inv_def by blast
  define s' where "s' = s\<lparr>sbuffer := b', last_line := (if l = int MAXLINES then int MAXLINES - 1 else l) + 1\<rparr>"
  have ap: "scrollback_apply (AppendLine str) s = Some s'"
    using b'(1) by (simp add: s'_def l_def)
  have inv': "scrollback_inv s'"
    using b'(2) l by (simp add: s'_def scrollback_inv_def)
  have hl: "held_lines s = take (nat l) v" by (simp add: held_lines_def l_def v_def)
  have "held_lines s' = (if length (held_lines s) = MAXLINES then drop 1 (held_lines s) else held_lines s)
         @ [take (MAX_LINE_LENGTH - 2) (cstr str)]"
  proof (cases "l = int MAXLINES")
    case True
    then have "held_lines s = v" using hl lv by simp
    moreover have "held_lines s' = (drop 1 v @ [[]])[MAXLINES - 1 := take (MAX_LINE_LENGTH - 2) (cstr str)]"
      using True b'(3) lv by (simp add: held_lines_def s'_def MAXLINES_def)
    moreover have "(drop 1 v @ [[]])[MAXLINES - 1 := take (MAX_LINE_LENGTH - 2) (cstr str)]
       = drop 1 v @ [take (MAX_LINE_LENGTH - 2) (cstr str)]"
      using lv by (simp add: list_update_append MAXLINES_def)
    ultimately show ?thesis using lv by simp
  next
    case False
    then have lt: "nat l < MAXLINES" using l by simp
    then have "length (held_lines s) \<noteq> MAXLINES" using hl lv by simp
    moreover have "held_lines s' = take (Suc (nat l)) (v[nat l := take (MAX_LINE_LENGTH - 2) (cstr str)])"
      using False b'(3) l by (simp add: held_lines_def s'_def nat_add_distrib)
    moreover have "take (Suc (nat l)) (v[nat l := take (MAX_LINE_LENGTH - 2) (cstr str)])
       = take (nat l) v @ [take (MAX_LINE_LENGTH - 2) (cstr str)]"
      using lt lv by (simp add: take_Suc_conv_app_nth)
    ultimately show ?thesis using hl by simp
  qed
  with ap inv' show ?thesis by blast
qed

lemma append_lines_held:
  "scrollback_inv s \<Longrightarrow>
   \<exists>s'. scrollback_run (map AppendLine ls) s = Some s' \<and> scrollback_inv s'
     \<and> held_lines s' = drop (length (held_lines s) + length ls - MAXLINES)
          (held_lines s @ map (\<lambda>str. take (MAX_LINE_LENGTH - 2) (cstr str)) ls)"
proof (induction ls arbitrary: s)
  case Nil
  have "length (held_lines s) \<le> MAXLINES"
    using Nil by (rule held_lines_le)
  with Nil show ?case by simp
next
  case (Cons x xs)
  let ?t = "take (MAX_LINE_LENGTH - 2) (cstr x)"
  let ?f = "\<lambda>str. take (MAX_LINE_LENGTH - 2) (cstr str)"
  have le: "length (held_lines s) \<le> MAXLINES"
    using Cons.prems by (rule held_lines_le)
  obtain s1 where s1: "scrollback_apply (AppendLine x) s = Some s1" "scrollback_inv s1"
    "held_lines s1 = (if length (held_lines s) = MAXLINES then drop 1 (held_lines s) else held_lines s) @ [?t]"
    using append_line_held [OF Cons.prems, of x] by blast
  obtain s' where s': "scrollback_run (map AppendLine xs) s1 = Some s'" "scrollback_inv s'"
    "held_lines s' = drop (length (held_lines s1) + length xs - MAXLINES) (held_lines s1 @ map ?f xs)"
    using Cons.IH [OF s1(2)] by blast
  have "held_lines s' = drop (length (held_lines s) + length (x # xs) - MAXLINES)
          (held_lines s @ map ?f (x # xs))"
  proof (cases "length (held_lines s) = MAXLINES")
    case True
    then have "held_lines s \<noteq> []" by (auto simp: MAXLINES_def)
    then obtain h hs where h: "held_lines s = h # hs" by (cases "held_lines s") auto
    with True s1(3) s'(3) show ?thesis by simp
  next
    case False
    with s1(3) s'(3) show ?thesis by simp
  qed
  with s1(1) s'(1,2) show ?case by simp
qed

lemma short_lines_stored_whole:
  "list_all (\<lambda>l. length l \<le> MAX_LINE_LENGTH - 2 \<and> NUL \<notin> set l) ls \<Longrightarrow>
   map (\<lambda>str. take (MAX_LINE_LENGTH - 2) (cstr str)) ls = ls"
  by (induction ls) (simp_all add: cstr_id)

lemma single_char_lines:
  "list_all (\<lambda>l. length l = 1 \<and> NUL \<notin> set l) (map (\<lambda>n::nat. [char_of n]) [1..<102])"
proof -
  have "NUL \<noteq> char_of n" if "1 \<le> n" "n < 102" for n :: nat
  proof
    assume "NUL = char_of n"
    then have "of_char (char_of n :: char) = (of_char NUL :: nat)" by simp
    then show False using that by (simp add: NUL_def)
  qed
  then show ?thesis by (auto simp: list_all_iff)
qed

lemma single_char_lines_distinct: "distinct (map (\<lambda>n::nat. [char_of n]) [1..<102])"
proof -
  have "inj_on (\<lambda>n::nat. [char_of n :: char]) (set [1..<102])"
  proof (rule inj_onI)
    fix n m :: nat
    assume n: "n \<in> set [1..<102]" and m: "m \<in> set [1..<102]"
      and "[char_of n :: char] = [char_of m]"
    then have "of_char (char_of n :: char) = (of_char (char_of m :: char) :: nat)" by simp
    then show "n = m" using n m by simp
  qed
  then show ?thesis by (simp add: distinct_map)
qed

text \<open>
  Claim C2. Whatever sequence of \<^verbatim>\<open>add_char_buffer\<close> and \<^verbatim>\<open>add_line_buffer\<close> calls runs
  from the empty buffer, no call fails, \<open>last_line\<close> stays within \<open>0 .. MAXLINES\<close> and the
  buffer holds at most \<open>MAXLINES = 100\<close> lines. Appending 101 single-character lines
  keeps all of the first 100, and the 101st evicts the oldest: the buffer then holds
  exactly the last 100 lines, in order.
\<close>

theorem scrollback_capacity_fifo:
  "(\<exists>s. scrollback_run ops scrollback_init = Some s
      \<and> 0 \<le> last_line s \<and> last_line s \<le> int MAXLINES
      \<and> length (sbuffer s) = MAXLINES \<and> length (held_lines s) \<le> MAXLINES)
   \<and> (length ls = MAXLINES + 1 \<and> list_all (\<lambda>l. length l = 1 \<and> NUL \<notin> set l) ls \<longrightarrow>
        (\<exists>s. scrollback_run (map AppendLine (take MAXLINES ls)) scrollback_init = Some s
           \<and> held_lines s = take MAXLINES ls)
        \<and> (\<exists>s. scrollback_run (map AppendLine ls) scrollback_init = Some s
           \<and> held_lines s = drop 1 ls \<and> last_line s = int MAXLINES))"
proof (intro conjI impI)
  obtain s where "scrollback_run ops scrollback_init = Some s" "scrollback_inv s"
    using scrollback_run_inv [OF scrollback_init_inv] by blast
  then show "\<exists>s. scrollback_run ops scrollback_init = Some s
      \<and> 0 \<le> last_line s \<and> last_line s \<le> int MAXLINES
      \<and> length (sbuffer s) = MAXLINES \<and> length (held_lines s) \<le> MAXLINES"
    using held_lines_le [of s] by (auto simp: scrollback_inv_def wf_buffer_def)
next
  assume a: "length ls = MAXLINES + 1 \<and> list_all (\<lambda>l. length l = 1 \<and> NUL \<notin> set l) ls"
  then have "list_all (\<lambda>l. length l \<le> MAX_LINE_LENGTH - 2 \<and> NUL \<notin> set l) ls"
    by (simp add: list_all_iff MAX_LINE_LENGTH_def)
  then have whole: "map (\<lambda>str. take (MAX_LINE_LENGTH - 2) (cstr str)) ls = ls"
    by (rule short_lines_stored_whole)
  obtain s where s: "scrollback_run (map AppendLine (take MAXLINES ls)) scrollback_init = Some s"
    "held_lines s = drop (length (held_lines scrollback_init) + length (take MAXLINES ls) - MAXLINES)
          (held_lines scrollback_init
             @ map (\<lambda>str. take (MAX_LINE_LENGTH - 2) (cstr str)) (take MAXLINES ls))"
    using append_lines_held [OF scrollback_init_inv, of "take MAXLINES ls"] by blast
  have "map (\<lambda>str. take (MAX_LINE_LENGTH - 2) (cstr str)) (take MAXLINES ls) = take MAXLINES ls"
    using whole by (metis take_map)
  then have "held_lines s = take MAXLINES ls"
    using s(2) a by (simp add: held_lines_init)
  with s(1) show "\<exists>s. scrollback_run (map AppendLine (take MAXLINES ls)) scrollback_init = Some s
           \<and> held_lines s = take MAXLINES ls" by blast
next
  assume a: "length ls = MAXLINES + 1 \<and> list_all (\<lambda>l. length l = 1 \<and> NUL \<notin> set l) ls"
  then have "list_all (\<lambda>l. length l \<le> MAX_LINE_LENGTH - 2 \<and> NUL \<notin> set l) ls"
    by (simp add: list_all_iff MAX_LINE_LENGTH_def)
  then have whole: "map (\<lambda>str. take (MAX_LINE_LENGTH - 2) (cstr str)) ls = ls"
    by (rule short_lines_stored_whole)
  obtain s where s: "scrollback_run (map AppendLine ls) scrollback_init = Some s"
    "scrollback_inv s"
    "held_lines s = drop (length (held_lines scrollback_init) + length ls - MAXLINES)
          (held_lines scrollback_init @ map (\<lambda>str. take (MAX_LINE_LENGTH - 2) (cstr str)) ls)"
    using append_lines_held [OF scrollback_init_inv, of ls] by blast
  have h: "held_lines s = drop 1 ls"
    using s(3) a whole by (simp add: held_lines_init)
  have "length (held_lines s) = MAXLINES" using h a by simp
  then have "last_line s = int MAXLINES"
    using length_held_lines [OF s(2)] s(2) by (auto simp: scrollback_inv_def)
  with s(1) h show "\<exists>s. scrollback_run (map AppendLine ls) scrollback_init = Some s
           \<and> held_lines s = drop 1 ls \<and> last_line s = int MAXLINES" by blast
qed

theorem scrollback_capacity_fifo_witness:
  "length (map (\<lambda>n::nat. [char_of n]) [1..<102]) = MAXLINES + 1
   \<and> list_all (\<lambda>l. length l = 1 \<and> NUL \<notin> set l) (map (\<lambda>n::nat. [char_of n]) [1..<102])
   \<and> distinct (map (\<lambda>n::nat. [char_of n :: char]) [1..<102])
   \<and> (\<exists>s. scrollback_run (map AppendLine (map (\<lambda>n::nat. [char_of n]) [1..<102])) scrollback_init = Some s
        \<and> held_lines s = drop 1 (map (\<lambda>n::nat. [char_of n]) [1..<102])
        \<and> last_line s = int MAXLINES)"
proof -
  have len: "length (map (\<lambda>n::nat. [char_of n :: char]) [1..<102]) = MAXLINES + 1"
    by (simp add: MAXLINES_def)
  from scrollback_capacity_fifo [of "[]" "map (\<lambda>n::nat. [char_of n]) [1..<102]"]
    len single_char_lines single_char_lines_distinct
  show ?thesis by blast
qed

subsection \<open>The scrollback buffer: the length of a stored line\<close>

lemma nth_map_cstr: "i < length b \<Longrightarrow> cstr (b ! i) = map cstr b ! i"
  by simp

lemma replicate_no_NUL: "NUL \<notin> set (replicate n CHR ''a'')"
  by (simp add: NUL_def)

text \<open>
  Claim C7. \<^verbatim>\<open>add_line_buffer\<close> stores the text cut to the maximum line length of 1000
  characters, and a text of at most 1000 characters unchanged. The guard of the source
  is \<^verbatim>\<open>strlen(line) > MAX_LINE_LENGTH - 2\<close>, so the cut is at 999 characters: the line
  stored is the first 999 characters of the text, a text of at most 999 characters is
  stored unchanged, and a text of 1000 characters loses its last one.
\<close>

theorem add_line_buffer_cuts_at_999:
  assumes "wf_buffer b" "0 \<le> l" "l \<le> int MAXLINES"
  shows "\<exists>b' l'. add_line_buffer b (str @ [NUL]) l = Some (b', l')
     \<and> 1 \<le> l' \<and> l' \<le> int MAXLINES
     \<and> cstr (b' ! nat (l' - 1)) = take 999 (cstr str)
     \<and> (NUL \<notin> set str \<longrightarrow>
          (length str \<le> 999 \<longrightarrow> cstr (b' ! nat (l' - 1)) = str)
          \<and> (999 < length str \<longrightarrow> cstr (b' ! nat (l' - 1)) = take 999 str))"
proof -
  define l0 where "l0 = (if l = int MAXLINES then int MAXLINES - 1 else l)"
  define v0 where "v0 = (if l = int MAXLINES then drop 1 (map cstr b) @ [[]] else map cstr b)"
  obtain b' where b': "add_line_buffer b (str @ [NUL]) l = Some (b', l0 + 1)" "wf_buffer b'"
    "map cstr b' = v0[nat l0 := take (MAX_LINE_LENGTH - 2) (cstr str)]"
    using add_line_buffer_view [OF assms, of str] unfolding l0_def v0_def by blast
  have l0: "0 \<le> l0" "l0 < int MAXLINES"
    using assms by (auto simp: l0_def MAXLINES_def)
  have len: "length b' = MAXLINES" "length v0 = MAXLINES"
    using b'(2) assms(1) by (auto simp: wf_buffer_def v0_def MAXLINES_def)
  have "cstr (b' ! nat l0) = map cstr b' ! nat l0"
    using l0 len by (intro nth_map_cstr) simp
  also have "\<dots> = take 999 (cstr str)"
    using b'(3) l0 len by (simp add: MAX_LINE_LENGTH_def)
  finally have st: "cstr (b' ! nat (l0 + 1 - 1)) = take 999 (cstr str)" by simp
  moreover have "1 \<le> l0 + 1" "l0 + 1 \<le> int MAXLINES" using l0 by simp_all
  moreover have "NUL \<notin> set str \<longrightarrow>
          (length str \<le> 999 \<longrightarrow> cstr (b' ! nat (l0 + 1 - 1)) = str)
          \<and> (999 < length str \<longrightarrow> cstr (b' ! nat (l0 + 1 - 1)) = take 999 str)"
    unfolding st by (simp add: cstr_id)
  ultimately show ?thesis using b'(1) by blast
qed

theorem add_line_buffer_cuts_at_999_witness:
  "wf_buffer sbuffer_zero \<and> (0::int) \<le> 0 \<and> 0 \<le> int MAXLINES \<and> NUL \<notin> set ''Hello''
   \<and> length ''Hello'' \<le> 999
   \<and> (\<exists>b' l'. add_line_buffer sbuffer_zero (''Hello'' @ [NUL]) 0 = Some (b', l')
        \<and> cstr (b' ! nat (l' - 1)) = ''Hello'')"
proof -
  have n: "NUL \<notin> set ''Hello''" by (simp add: NUL_def)
  have z: "(0::int) \<le> 0" "0 \<le> int MAXLINES" by simp_all
  from add_line_buffer_cuts_at_999 [OF wf_sbuffer_zero z, of "''Hello''"] n wf_sbuffer_zero z
  show ?thesis by auto
qed

theorem add_line_buffer_1000_chars_cut:
  "\<exists>b' l'. add_line_buffer sbuffer_zero (replicate 1000 CHR ''a'' @ [NUL]) 0 = Some (b', l')
     \<and> cstr (b' ! nat (l' - 1)) = replicate 999 CHR ''a''
     \<and> cstr (b' ! nat (l' - 1)) \<noteq> replicate 1000 CHR ''a''"
proof -
  obtain b' where b': "add_line_buffer sbuffer_zero (replicate 1000 CHR ''a'' @ [NUL]) 0 = Some (b', 0 + 1)"
    "wf_buffer b'"
    "map cstr b' = (map cstr sbuffer_zero)[nat 0 := take (MAX_LINE_LENGTH - 2) (cstr (replicate 1000 CHR ''a''))]"
    using add_line_buffer_view [OF wf_sbuffer_zero, of 0 "replicate 1000 CHR ''a''"]
    by (auto simp: MAXLINES_def)
  have "cstr (b' ! 0) = map cstr b' ! 0"
    using b'(2) by (intro nth_map_cstr) (simp add: wf_buffer_def MAXLINES_def)
  also have "\<dots> = take 999 (cstr (replicate 1000 CHR ''a''))"
    using b'(3) by (simp add: sbuffer_zero_def MAXLINES_def MAX_LINE_LENGTH_def)
  also have "cstr (replicate 1000 CHR ''a'') = replicate 1000 CHR ''a''"
    by (rule cstr_id) (rule replicate_no_NUL)
  also have "take 999 (replicate 1000 CHR ''a'') = replicate 999 CHR ''a''"
    by simp
  finally have c: "cstr (b' ! 0) = replicate 999 CHR ''a''" .
  have "length (cstr (b' ! 0)) \<noteq> length (replicate 1000 CHR ''a'')"
    unfolding c by simp
  then have "cstr (b' ! 0) \<noteq> replicate 1000 CHR ''a''" by metis
  with b'(1) c show ?thesis by simp
qed

subsection \<open>The scrollback buffer: characters\<close>

text \<open>
  A row whose string has 999 or 1000 characters: \<^verbatim>\<open>add_char_buffer\<close> writes the byte at
  index 999 and the terminator at index 1000, whatever the byte.
\<close>

lemma full_row_write:
  assumes "wf_row r" "MAX_LINE_LENGTH - 2 \<le> length (cstr r)"
  shows "r[MAX_LINE_LENGTH - 2 := c, MAX_LINE_LENGTH - 1 := NUL] = take (MAX_LINE_LENGTH - 2) (cstr r) @ [c, NUL]"
proof -
  have len: "length r = 1001" using assms(1) by (simp add: wf_row_def MAX_LINE_LENGTH_def)
  have "r[999 := c, 999 + 1 := NUL] = take 999 r @ c # NUL # drop (999 + 2) r"
    by (rule nth_equalityI) (auto simp: len nth_append nth_list_update nth_Cons')
  moreover have "take 999 r = take 999 (cstr r)"
    using assms(2) by (intro take_cstr) (simp add: MAX_LINE_LENGTH_def)
  ultimately show ?thesis using len by (simp add: MAX_LINE_LENGTH_def)
qed

lemma add_char_full_row:
  assumes "wf_buffer b" "0 \<le> l" "l < int MAXLINES"
    and "MAX_LINE_LENGTH - 2 \<le> length (cstr (b ! nat l))"
  shows "add_char_buffer b c l
     = Some (b[nat l := take (MAX_LINE_LENGTH - 2) (cstr (b ! nat l)) @ [c, NUL]],
             if c = CHR 0x0A then l + 1 else l)"
proof -
  define r where "r = b ! nat l"
  have wr: "wf_row r" using assms by (simp add: r_def wf_buffer_nth)
  have len: "length r = 1001" using wr by (simp add: wf_row_def MAX_LINE_LENGTH_def)
  have rg: "row_get b l = Some r"
    using assms by (simp add: row_get_def r_def wf_buffer_def)
  have sl: "strlen r = Some (length (cstr r))" using wr by (rule strlen_wf)
  have le: "length (cstr r) \<le> 1000"
    using cstr_length_less [of r] wr by (simp add: wf_row_def MAX_LINE_LENGTH_def)
  have x: "(if length (cstr r) > MAX_LINE_LENGTH - 2 then MAX_LINE_LENGTH - 2 else length (cstr r))
     = MAX_LINE_LENGTH - 2"
    using assms(4) by (simp add: r_def)
  have w: "r[MAX_LINE_LENGTH - 2 := c, MAX_LINE_LENGTH - 1 := NUL]
     = take (MAX_LINE_LENGTH - 2) (cstr r) @ [c, NUL]"
    using wr assms(4) unfolding r_def by (rule full_row_write)
  have "add_char_buffer b c l
     = Some (b[nat l := r[MAX_LINE_LENGTH - 2 := c, MAX_LINE_LENGTH - 1 := NUL]],
             if c = CHR 0x0A then l + 1 else l)"
    unfolding add_char_buffer_def using assms(3) rg sl x len
    by (simp add: Let_def array_set_def MAX_LINE_LENGTH_def)
  then show ?thesis unfolding w unfolding r_def .
qed

lemma cstr_full_row:
  assumes "NUL \<notin> set p" 
  shows "cstr (p @ [c, NUL]) = p @ (if c = NUL then [] else [c])"
proof (cases "c = NUL")
  case True
  then show ?thesis using assms by (simp add: cstr_append_NUL)
next
  case False
  have "cstr ((p @ [c]) @ NUL # []) = p @ [c]"
    using assms False by (intro cstr_append_NUL) simp
  then show ?thesis using False by simp
qed

lemma on_text_plain_full_row:
  "scrollback_inv s \<Longrightarrow> last_line s < int MAXLINES \<Longrightarrow>
   MAX_LINE_LENGTH - 2 \<le> length (cstr (sbuffer s ! nat (last_line s))) \<Longrightarrow>
   cs \<noteq> [] \<Longrightarrow> CHR 0x0A \<notin> set cs \<Longrightarrow>
   on_text_plain cs s
     = Some (s\<lparr>sbuffer := (sbuffer s)[nat (last_line s) :=
          take (MAX_LINE_LENGTH - 2) (cstr (sbuffer s ! nat (last_line s))) @ [last cs, NUL]]\<rparr>)"
proof (induction cs arbitrary: s)
  case Nil
  then show ?case by simp
next
  case (Cons c cs)
  let ?l = "last_line s"
  let ?p = "take (MAX_LINE_LENGTH - 2) (cstr (sbuffer s ! nat ?l))"
  define s1 where "s1 = s\<lparr>sbuffer := (sbuffer s)[nat ?l := ?p @ [c, NUL]]\<rparr>"
  have wf: "wf_buffer (sbuffer s)" and l: "0 \<le> ?l"
    using Cons.prems(1) by (simp_all add: scrollback_inv_def)
  have len: "length (sbuffer s) = MAXLINES" using wf by (simp add: wf_buffer_def)
  have c: "c \<noteq> CHR 0x0A" using Cons.prems(5) by auto
  have step: "add_char_buffer (sbuffer s) c ?l = Some ((sbuffer s)[nat ?l := ?p @ [c, NUL]], ?l)"
    using add_char_full_row [OF wf l Cons.prems(2,3), of c] c by simp
  have pl: "length ?p = MAX_LINE_LENGTH - 2" using Cons.prems(3) by simp
  have pn: "NUL \<notin> set ?p" using cstr_no_NUL [of "sbuffer s ! nat ?l"] by (meson in_set_takeD)
  have row1: "sbuffer s1 ! nat ?l = ?p @ [c, NUL]"
    using Cons.prems(2) l len by (simp add: s1_def)
  have c1: "cstr (sbuffer s1 ! nat ?l) = ?p @ (if c = NUL then [] else [c])"
    unfolding row1 using pn by (rule cstr_full_row)
  show ?case
  proof (cases "cs = []")
    case True
    with step show ?thesis by simp
  next
    case False
    have wr: "wf_row (?p @ [c, NUL])" using pl by (simp add: wf_row_def MAX_LINE_LENGTH_def)
    have inv1: "scrollback_inv s1"
      using Cons.prems(1) wr by (simp add: s1_def scrollback_inv_def wf_buffer_update)
    have tk: "take (MAX_LINE_LENGTH - 2) (cstr (sbuffer s1 ! nat (last_line s1))) = ?p"
      using c1 pl by (simp add: s1_def)
    have "on_text_plain cs s1
       = Some (s1\<lparr>sbuffer := (sbuffer s1)[nat (last_line s1) :=
          take (MAX_LINE_LENGTH - 2) (cstr (sbuffer s1 ! nat (last_line s1))) @ [last cs, NUL]]\<rparr>)"
      using inv1 Cons.prems(2,5) False c1 pl
      by (intro Cons.IH) (simp_all add: s1_def)
    then have "on_text_plain cs s1
       = Some (s\<lparr>sbuffer := (sbuffer s)[nat ?l := ?p @ [last cs, NUL]]\<rparr>)"
      unfolding tk by (simp add: s1_def)
    with step False show ?thesis by (simp add: s1_def)
  qed
qed

lemma on_text_plain_append:
  "on_text_plain (xs @ ys) s
     = (case on_text_plain xs s of None \<Rightarrow> None | Some s' \<Rightarrow> on_text_plain ys s')"
  by (induction xs arbitrary: s) (auto split: option.splits)

lemma on_text_ansi_no_bell:
  "CHR 0x07 \<notin> set cs \<Longrightarrow> on_text_ansi cs s = on_text_plain cs s"
  by (induction cs arbitrary: s) (auto split: option.splits)

text \<open>Characters that fit into the current row are appended to its string.\<close>

lemma on_text_plain_line:
  "scrollback_inv s \<Longrightarrow> last_line s < int MAXLINES \<Longrightarrow>
   NUL \<notin> set cs \<Longrightarrow> CHR 0x0A \<notin> set cs \<Longrightarrow>
   length (cstr (sbuffer s ! nat (last_line s))) + length cs \<le> MAX_LINE_LENGTH - 1 \<Longrightarrow>
   \<exists>s'. on_text_plain cs s = Some s' \<and> scrollback_inv s' \<and> last_line s' = last_line s
     \<and> map cstr (sbuffer s')
         = (map cstr (sbuffer s))[nat (last_line s) := cstr (sbuffer s ! nat (last_line s)) @ cs]"
proof (induction cs arbitrary: s)
  case Nil
  then show ?case by (simp flip: map_update)
next
  case (Cons c cs)
  let ?l = "last_line s"
  let ?v = "map cstr (sbuffer s)"
  let ?row = "cstr (sbuffer s ! nat ?l)"
  have wf: "wf_buffer (sbuffer s)" and l: "0 \<le> ?l" "?l \<le> int MAXLINES"
    using Cons.prems(1) by (simp_all add: scrollback_inv_def)
  have len: "length (sbuffer s) = MAXLINES" using wf by (simp add: wf_buffer_def)
  have lt: "nat ?l < MAXLINES" using Cons.prems(2) l by simp
  have c: "c \<noteq> NUL" "c \<noteq> CHR 0x0A" using Cons.prems(3,4) by auto
  have vl: "?v ! nat ?l = ?row" using lt len by simp
  have short: "length ?row \<le> MAX_LINE_LENGTH - 2"
    using Cons.prems(5) by (simp add: MAX_LINE_LENGTH_def)
  obtain b' where b': "add_char_buffer (sbuffer s) c ?l = Some (b', ?l)" "wf_buffer b'"
    "map cstr b' = ?v[nat ?l := ?row @ [c]]"
    using add_char_buffer_view [OF wf l, of c] Cons.prems(2) c vl short by auto
  define s1 where "s1 = s\<lparr>sbuffer := b', last_line := ?l\<rparr>"
  have inv1: "scrollback_inv s1"
    using b'(2) l by (simp add: s1_def scrollback_inv_def)
  have len': "length b' = MAXLINES" using b'(2) by (simp add: wf_buffer_def)
  have "cstr (b' ! nat ?l) = map cstr b' ! nat ?l" using lt len' by simp
  then have row1: "cstr (sbuffer s1 ! nat (last_line s1)) = ?row @ [c]"
    using b'(3) lt len by (simp add: s1_def)
  obtain s' where s': "on_text_plain cs s1 = Some s'" "scrollback_inv s'"
    "last_line s' = last_line s1"
    "map cstr (sbuffer s')
       = (map cstr (sbuffer s1))[nat (last_line s1) := cstr (sbuffer s1 ! nat (last_line s1)) @ cs]"
    using Cons.IH [OF inv1] Cons.prems(2-5) row1 by (auto simp: s1_def)
  have "map cstr (sbuffer s') = ?v[nat ?l := ?row @ c # cs]"
    using s'(4) b'(3) unfolding row1 by (simp add: s1_def)
  moreover have "on_text_plain (c # cs) s = Some s'"
    using b'(1) s'(1) by (simp add: s1_def)
  ultimately show ?case using s'(2,3) by (simp add: s1_def)
qed

text \<open>A newline is stored like any other character, and then ends the line.\<close>

lemma on_text_plain_complete_line:
  assumes "scrollback_inv s" "last_line s < int MAXLINES"
    and "NUL \<notin> set cs" "CHR 0x0A \<notin> set cs"
    and "length (cstr (sbuffer s ! nat (last_line s))) + length cs \<le> MAX_LINE_LENGTH - 2"
  shows "\<exists>s'. on_text_plain (cs @ [CHR 0x0A]) s = Some s' \<and> scrollback_inv s'
     \<and> last_line s' = last_line s + 1
     \<and> map cstr (sbuffer s')
         = (map cstr (sbuffer s))[nat (last_line s) :=
              cstr (sbuffer s ! nat (last_line s)) @ cs @ [CHR 0x0A]]"
proof -
  let ?l = "last_line s"
  let ?row = "cstr (sbuffer s ! nat ?l)"
  have l: "0 \<le> ?l" using assms(1) by (simp add: scrollback_inv_def)
  have len: "length (sbuffer s) = MAXLINES"
    using assms(1) by (simp add: scrollback_inv_def wf_buffer_def)
  obtain s1 where s1: "on_text_plain cs s = Some s1" "scrollback_inv s1" "last_line s1 = ?l"
    "map cstr (sbuffer s1) = (map cstr (sbuffer s))[nat ?l := ?row @ cs]"
    using on_text_plain_line [OF assms(1-4)] assms(5) by (auto simp: MAX_LINE_LENGTH_def)
  have wf1: "wf_buffer (sbuffer s1)" using s1(2) by (simp add: scrollback_inv_def)
  have v1: "map cstr (sbuffer s1) ! nat ?l = ?row @ cs"
    using s1(4) len assms(2) l by simp
  have nl: "CHR 0x0A \<noteq> NUL" by (simp add: NUL_def)
  obtain b' where b': "add_char_buffer (sbuffer s1) (CHR 0x0A) ?l = Some (b', ?l + 1)"
    "wf_buffer b'"
    "map cstr b' = (map cstr (sbuffer s1))[nat ?l := (?row @ cs) @ [CHR 0x0A]]"
    using add_char_buffer_view [OF wf1 l, of "CHR 0x0A"] assms(2,5) v1 nl by auto
  define s' where "s' = s1\<lparr>sbuffer := b', last_line := ?l + 1\<rparr>"
  have "on_text_plain (cs @ [CHR 0x0A]) s = Some s'"
    using s1(1,3) b'(1) by (simp add: on_text_plain_append s'_def)
  moreover have "scrollback_inv s'"
    using b'(2) l assms(2) by (simp add: s'_def scrollback_inv_def)
  moreover have "map cstr (sbuffer s') = (map cstr (sbuffer s))[nat ?l := ?row @ cs @ [CHR 0x0A]]"
    using b'(3) s1(4) by (simp add: s'_def)
  ultimately show ?thesis by (auto simp: s'_def)
qed

lemma thousand_chars:
  "\<exists>s. on_text_plain (replicate 1000 CHR ''a'') scrollback_init = Some s
     \<and> scrollback_inv s \<and> last_line s = 0
     \<and> cstr (sbuffer s ! 0) = replicate 1000 CHR ''a''"
proof -
  have r0: "cstr (sbuffer scrollback_init ! nat (last_line scrollback_init)) = []"
    by (simp add: scrollback_init_def sbuffer_zero_def MAXLINES_def MAX_LINE_LENGTH_def cstr_def)
  have nl: "CHR 0x0A \<notin> set (replicate 1000 CHR ''a'')" by simp
  obtain s where s: "on_text_plain (replicate 1000 CHR ''a'') scrollback_init = Some s"
    "scrollback_inv s" "last_line s = last_line scrollback_init"
    "map cstr (sbuffer s) = (map cstr (sbuffer scrollback_init))
       [nat (last_line scrollback_init) :=
          cstr (sbuffer scrollback_init ! nat (last_line scrollback_init)) @ replicate 1000 CHR ''a'']"
    using on_text_plain_line [OF scrollback_init_inv _ replicate_no_NUL [of 1000] nl] r0
    by (auto simp: scrollback_init_def MAXLINES_def MAX_LINE_LENGTH_def)
  have "length (sbuffer s) = MAXLINES" using s(2) by (simp add: scrollback_inv_def wf_buffer_def)
  then have "cstr (sbuffer s ! 0) = map cstr (sbuffer s) ! 0" by (simp add: MAXLINES_def)
  also have "\<dots> = replicate 1000 CHR ''a''"
    unfolding s(4) r0 by (simp add: scrollback_init_def sbuffer_zero_def MAXLINES_def)
  finally show ?thesis using s(1-3) by (simp add: scrollback_init_def)
qed

text \<open>
  Claim C10. When the line in the current row is at its maximum length of 1000
  characters, every further character other than a newline that \<^verbatim>\<open>add_char_buffer\<close> gets
  is written at index 999, the last position before the terminator, over the character
  that was there: after any such characters the row holds the first 999 characters it
  had, then the byte appended last, then the terminator.
\<close>

theorem add_char_overwrites_last_position:
  assumes "scrollback_inv s" "last_line s < int MAXLINES"
    and "length (cstr (sbuffer s ! nat (last_line s))) = MAX_LINE_LENGTH - 1"
    and "cs \<noteq> []" "CHR 0x0A \<notin> set cs"
  shows "\<exists>s'. on_text_plain cs s = Some s' \<and> last_line s' = last_line s
     \<and> sbuffer s' ! nat (last_line s)
         = take 999 (cstr (sbuffer s ! nat (last_line s))) @ [last cs, NUL]
     \<and> sbuffer s' ! nat (last_line s) ! 999 = last cs
     \<and> (last cs \<noteq> NUL \<longrightarrow>
          cstr (sbuffer s' ! nat (last_line s))
            = take 999 (cstr (sbuffer s ! nat (last_line s))) @ [last cs]
          \<and> length (cstr (sbuffer s' ! nat (last_line s))) = MAX_LINE_LENGTH - 1)"
proof -
  let ?l = "last_line s"
  let ?p = "take (MAX_LINE_LENGTH - 2) (cstr (sbuffer s ! nat ?l))"
  define s' where "s' = s\<lparr>sbuffer := (sbuffer s)[nat ?l := ?p @ [last cs, NUL]]\<rparr>"
  have run: "on_text_plain cs s = Some s'"
    unfolding s'_def using assms by (intro on_text_plain_full_row) simp_all
  have l: "0 \<le> ?l" and len: "length (sbuffer s) = MAXLINES"
    using assms(1) by (simp_all add: scrollback_inv_def wf_buffer_def)
  have row: "sbuffer s' ! nat ?l = ?p @ [last cs, NUL]"
    using assms(2) l len by (simp add: s'_def)
  have pl: "length ?p = 999" using assms(3) by (simp add: MAX_LINE_LENGTH_def)
  have pn: "NUL \<notin> set ?p"
    using cstr_no_NUL [of "sbuffer s ! nat ?l"] by (meson in_set_takeD)
  have c: "cstr (sbuffer s' ! nat ?l) = ?p @ (if last cs = NUL then [] else [last cs])"
    unfolding row using pn by (rule cstr_full_row)
  have "sbuffer s' ! nat ?l ! 999 = last cs"
    unfolding row using pl by (simp add: nth_append)
  with run row c pl show ?thesis
    by (auto simp: s'_def MAX_LINE_LENGTH_def)
qed

theorem add_char_overwrites_last_position_witness:
  "\<exists>s. on_text_plain (replicate 1000 CHR ''a'') scrollback_init = Some s
     \<and> scrollback_inv s \<and> last_line s < int MAXLINES
     \<and> length (cstr (sbuffer s ! nat (last_line s))) = MAX_LINE_LENGTH - 1
     \<and> ''bc'' \<noteq> [] \<and> CHR 0x0A \<notin> set ''bc''
     \<and> (\<exists>s'. on_text_plain ''bc'' s = Some s' \<and> last_line s' = last_line s
          \<and> sbuffer s' ! nat (last_line s) ! 999 = CHR ''c''
          \<and> cstr (sbuffer s' ! nat (last_line s)) = replicate 999 CHR ''a'' @ ''c'')"
proof -
  obtain s where s: "on_text_plain (replicate 1000 CHR ''a'') scrollback_init = Some s"
    "scrollback_inv s" "last_line s = 0" "cstr (sbuffer s ! 0) = replicate 1000 CHR ''a''"
    using thousand_chars by blast
  have h: "last_line s < int MAXLINES"
    "length (cstr (sbuffer s ! nat (last_line s))) = MAX_LINE_LENGTH - 1"
    "''bc'' \<noteq> []" "CHR 0x0A \<notin> set ''bc''"
    using s(3,4) by (simp_all add: MAXLINES_def MAX_LINE_LENGTH_def)
  have n: "last ''bc'' \<noteq> NUL" by (simp add: NUL_def)
  from add_char_overwrites_last_position [OF s(2) h] n
  obtain s' where "on_text_plain ''bc'' s = Some s'" "last_line s' = last_line s"
    "sbuffer s' ! nat (last_line s) ! 999 = last ''bc''"
    "cstr (sbuffer s' ! nat (last_line s))
       = take 999 (cstr (sbuffer s ! nat (last_line s))) @ [last ''bc'']"
    by blast
  then have "\<exists>s'. on_text_plain ''bc'' s = Some s' \<and> last_line s' = last_line s
          \<and> sbuffer s' ! nat (last_line s) ! 999 = CHR ''c''
          \<and> cstr (sbuffer s' ! nat (last_line s)) = replicate 999 CHR ''a'' @ ''c''"
    using s(3,4) by simp
  with s(1,2) h show ?thesis by blast
qed

subsection \<open>The scrollback buffer: a line from the server\<close>

lemma hello_stored:
  "\<exists>s. on_text_ansi (''Hello'' @ [CHR 0x0D, CHR 0x0A]) scrollback_init = Some s
     \<and> last_line s = 1 \<and> length (sbuffer s) = MAXLINES
     \<and> map cstr (sbuffer s) = (map cstr sbuffer_zero)[0 := ''Hello'' @ [CHR 0x0D, CHR 0x0A]]"
proof -
  have r0: "cstr (sbuffer scrollback_init ! nat (last_line scrollback_init)) = []"
    by (simp add: scrollback_init_def sbuffer_zero_def MAXLINES_def MAX_LINE_LENGTH_def cstr_def)
  have nb: "CHR 0x07 \<notin> set ((''Hello'' @ [CHR 0x0D]) @ [CHR 0x0A])" by simp
  have h: "last_line scrollback_init < int MAXLINES" "NUL \<notin> set (''Hello'' @ [CHR 0x0D])"
    "CHR 0x0A \<notin> set (''Hello'' @ [CHR 0x0D])"
    "length (cstr (sbuffer scrollback_init ! nat (last_line scrollback_init)))
       + length (''Hello'' @ [CHR 0x0D]) \<le> MAX_LINE_LENGTH - 2"
    unfolding r0 by (simp_all add: scrollback_init_def MAXLINES_def MAX_LINE_LENGTH_def NUL_def)
  obtain s where s: "on_text_plain ((''Hello'' @ [CHR 0x0D]) @ [CHR 0x0A]) scrollback_init = Some s"
    "scrollback_inv s"
    "last_line s = last_line scrollback_init + 1"
    "map cstr (sbuffer s) = (map cstr (sbuffer scrollback_init))
       [nat (last_line scrollback_init) :=
          cstr (sbuffer scrollback_init ! nat (last_line scrollback_init))
            @ (''Hello'' @ [CHR 0x0D]) @ [CHR 0x0A]]"
    using on_text_plain_complete_line [OF scrollback_init_inv h] by blast
  have "on_text_ansi ((''Hello'' @ [CHR 0x0D]) @ [CHR 0x0A]) scrollback_init = Some s"
    using s(1) on_text_ansi_no_bell [OF nb] by simp
  moreover have "length (sbuffer s) = MAXLINES"
    using s(2) by (simp add: scrollback_inv_def wf_buffer_def)
  moreover have "map cstr (sbuffer s) = (map cstr sbuffer_zero)[0 := ''Hello'' @ [CHR 0x0D, CHR 0x0A]]"
    unfolding s(4) r0 by (simp add: scrollback_init_def)
  ultimately show ?thesis using s(3) by (simp add: scrollback_init_def)
qed

lemma render_hello:
  "\<exists>v. send_text_ansi (''Hello'' @ [CHR 0x0D, CHR 0x0A]) vt_init = Some v
     \<and> win_main v = map WAddCh (''Hello'' @ [CHR 0x0A])"
  by (simp add: vt_init_def term_byte_def)

text \<open>
  Claim C4. After the application bytes \<^verbatim>\<open>Hello\r\n\<close> the line completed last is the five
  characters \<^verbatim>\<open>Hello\<close>, the carriage return and the newline being stored nowhere. In the
  source \<^verbatim>\<open>on_text_ansi\<close> hands every byte but the bell to \<^verbatim>\<open>add_char_buffer\<close>, which
  stores it, the newline too, before the newline ends the line: the line completed last
  is the seven bytes \<^verbatim>\<open>Hello\r\n\<close>. The carriage return is dropped later, when
  \<^verbatim>\<open>send_text_ansi\<close> draws the stored line: the window gets \<^verbatim>\<open>Hello\n\<close>.
\<close>

theorem hello_line_keeps_cr_and_lf:
  "\<exists>s. on_text_ansi (''Hello'' @ [CHR 0x0D, CHR 0x0A]) scrollback_init = Some s
     \<and> last_line s = 1
     \<and> cstr (sbuffer s ! nat (last_line s - 1)) = ''Hello'' @ [CHR 0x0D, CHR 0x0A]
     \<and> held_lines s = [''Hello'' @ [CHR 0x0D, CHR 0x0A]]
     \<and> (\<exists>v. send_text_ansi (cstr (sbuffer s ! nat (last_line s - 1))) vt_init = Some v
          \<and> win_main v = map WAddCh (''Hello'' @ [CHR 0x0A]))"
proof -
  obtain s where s: "on_text_ansi (''Hello'' @ [CHR 0x0D, CHR 0x0A]) scrollback_init = Some s"
    "last_line s = 1" "length (sbuffer s) = MAXLINES"
    "map cstr (sbuffer s) = (map cstr sbuffer_zero)[0 := ''Hello'' @ [CHR 0x0D, CHR 0x0A]]"
    using hello_stored by blast
  have "cstr (sbuffer s ! 0) = map cstr (sbuffer s) ! 0"
    using s(3) by (simp add: MAXLINES_def)
  then have row: "cstr (sbuffer s ! 0) = ''Hello'' @ [CHR 0x0D, CHR 0x0A]"
    unfolding s(4) by (simp add: sbuffer_zero_def MAXLINES_def)
  have "held_lines s = take 1 ((map cstr sbuffer_zero)[0 := ''Hello'' @ [CHR 0x0D, CHR 0x0A]])"
    using s(2,4) by (simp add: held_lines_def)
  then have held: "held_lines s = [''Hello'' @ [CHR 0x0D, CHR 0x0A]]"
    by (simp add: sbuffer_zero_def MAXLINES_def take_Suc_conv_app_nth)
  have "\<exists>v. send_text_ansi (cstr (sbuffer s ! 0)) vt_init = Some v
          \<and> win_main v = map WAddCh (''Hello'' @ [CHR 0x0A])"
    unfolding row by (rule render_hello)
  with s(1,2) row held show ?thesis by simp
qed

theorem hello_line_is_not_hello:
  "\<exists>s. on_text_ansi (''Hello'' @ [CHR 0x0D, CHR 0x0A]) scrollback_init = Some s
     \<and> cstr (sbuffer s ! nat (last_line s - 1)) \<noteq> ''Hello''"
proof -
  obtain s where s: "on_text_ansi (''Hello'' @ [CHR 0x0D, CHR 0x0A]) scrollback_init = Some s"
    "last_line s = 1" "length (sbuffer s) = MAXLINES"
    "map cstr (sbuffer s) = (map cstr sbuffer_zero)[0 := ''Hello'' @ [CHR 0x0D, CHR 0x0A]]"
    using hello_stored by blast
  have "cstr (sbuffer s ! 0) = map cstr (sbuffer s) ! 0"
    using s(3) by (simp add: MAXLINES_def)
  then have "cstr (sbuffer s ! 0) = ''Hello'' @ [CHR 0x0D, CHR 0x0A]"
    unfolding s(4) by (simp add: sbuffer_zero_def MAXLINES_def)
  then have "cstr (sbuffer s ! 0) \<noteq> ''Hello''" by simp
  with s(1,2) show ?thesis by auto
qed

subsection \<open>The scrollback buffer: the start and the bell\<close>

text \<open>\<^verbatim>\<open>init_buffer\<close> leaves the zeroed global array as it is.\<close>

lemma init_rows_zero: "init_rows y sbuffer_zero = Some sbuffer_zero"
proof (induction "MAXLINES - y" arbitrary: y)
  case 0
  then show ?case by (subst init_rows.simps) simp
next
  case (Suc n)
  then have y: "y < MAXLINES" by simp
  have g: "array_get sbuffer_zero y = Some (replicate MAX_LINE_LENGTH NUL)"
    using y by (simp add: array_get_def sbuffer_zero_def)
  have s: "array_set (replicate MAX_LINE_LENGTH NUL) 0 NUL = Some (replicate MAX_LINE_LENGTH NUL)"
    by (simp add: array_set_def MAX_LINE_LENGTH_def list_update_same_conv)
  have u: "sbuffer_zero[y := replicate MAX_LINE_LENGTH NUL] = sbuffer_zero"
    using y by (simp add: sbuffer_zero_def list_update_same_conv)
  have "init_rows (y + 1) sbuffer_zero = Some sbuffer_zero"
    using Suc by (intro Suc.hyps(1)) simp
  then show ?case using y g s u by (subst init_rows.simps) simp
qed

lemma init_buffer_zero: "init_buffer sbuffer_zero = Some sbuffer_zero"
  by (simp add: init_buffer_def init_rows_zero)

lemma on_text_plain_beeps:
  "on_text_plain cs (s\<lparr>beeps := n\<rparr>) = map_option (\<lambda>s'. s'\<lparr>beeps := n\<rparr>) (on_text_plain cs s)"
proof (induction cs arbitrary: s)
  case Nil
  then show ?case by simp
next
  case (Cons c cs)
  show ?case
  proof (cases "add_char_buffer (sbuffer s) c (last_line s)")
    case None
    then show ?thesis by simp
  next
    case (Some p)
    obtain b l where p: "p = (b, l)" by (cases p)
    have eq: "s\<lparr>beeps := n, sbuffer := b, last_line := l\<rparr>
       = (s\<lparr>sbuffer := b, last_line := l\<rparr>)\<lparr>beeps := n\<rparr>"
      by (cases s) simp
    have "on_text_plain (c # cs) (s\<lparr>beeps := n\<rparr>)
       = on_text_plain cs ((s\<lparr>sbuffer := b, last_line := l\<rparr>)\<lparr>beeps := n\<rparr>)"
      using Some p by (simp add: eq)
    also have "\<dots> = map_option (\<lambda>s'. s'\<lparr>beeps := n\<rparr>)
        (on_text_plain cs (s\<lparr>sbuffer := b, last_line := l\<rparr>))"
      by (rule Cons.IH)
    also have "\<dots> = map_option (\<lambda>s'. s'\<lparr>beeps := n\<rparr>) (on_text_plain (c # cs) s)"
      using Some p by simp
    finally show ?thesis .
  qed
qed

text \<open>
  A bell byte is never stored: \<^verbatim>\<open>on_text_ansi\<close> does to the buffer what \<^verbatim>\<open>on_text_plain\<close>
  does for the text without its bell bytes, and calls \<^verbatim>\<open>beep\<close> once for each of them.
\<close>

theorem bell_never_stored:
  "on_text_ansi cs s
     = map_option (\<lambda>s'. s'\<lparr>beeps := beeps s + count_list cs (CHR 0x07)\<rparr>)
         (on_text_plain (filter (\<lambda>c. c \<noteq> CHR 0x07) cs) s)"
proof (induction cs arbitrary: s)
  case Nil
  then show ?case by simp
next
  case (Cons c cs)
  show ?case
  proof (cases "c = CHR 0x07")
    case True
    then show ?thesis
      by (simp add: Cons.IH on_text_plain_beeps option.map_comp comp_def)
  next
    case False
    then show ?thesis
      by (auto simp: Cons.IH split: option.splits)
  qed
qed

subsection \<open>Drawing the scrollback buffer\<close>

lemma print_rows_in_range:
  "wf_buffer b \<Longrightarrow> term_inv v \<Longrightarrow> 0 \<le> y \<Longrightarrow> e < int MAXLINES \<Longrightarrow>
   \<exists>v'. print_rows b y e v = Some v' \<and> term_inv v'"
proof (induction b y e v rule: print_rows.induct)
  case (1 b y e v)
  show ?case
  proof (cases "y \<le> e")
    case False
    then show ?thesis using "1.prems"(2) by (subst print_rows.simps) simp
  next
    case True
    define r where "r = b ! nat y"
    have rg: "row_get b y = Some r"
      using True "1.prems" by (simp add: row_get_def r_def wf_buffer_def)
    have "wf_row r" using True "1.prems" by (simp add: r_def wf_buffer_nth)
    then have sl: "strlen r = Some (length (cstr r))" by (rule strlen_wf)
    obtain v1 where v1: "send_text_ansi (take (length (cstr r)) r) v = Some v1" "term_inv v1"
      using send_text_ansi_inv [OF "1.prems"(2)] by blast
    obtain v' where "print_rows b (y + 1) e v1 = Some v'" "term_inv v'"
      using "1.IH" [OF True rg sl v1(1) "1.prems"(1) v1(2)] "1.prems"(3,4) by auto
    then show ?thesis using True rg sl v1(1) by (subst print_rows.simps) simp
  qed
qed

lemma print_rows_past_end:
  "wf_buffer b \<Longrightarrow> term_inv v \<Longrightarrow> 0 \<le> y \<Longrightarrow> y \<le> e \<Longrightarrow> int MAXLINES \<le> e \<Longrightarrow>
   print_rows b y e v = None"
proof (induction b y e v rule: print_rows.induct)
  case (1 b y e v)
  show ?case
  proof (cases "y < int MAXLINES")
    case False
    then have "row_get b y = None"
      using "1.prems"(1) by (simp add: row_get_def wf_buffer_def)
    then show ?thesis using "1.prems"(4) by (subst print_rows.simps) simp
  next
    case True
    define r where "r = b ! nat y"
    have rg: "row_get b y = Some r"
      using True "1.prems" by (simp add: row_get_def r_def wf_buffer_def)
    have "wf_row r" using True "1.prems" by (simp add: r_def wf_buffer_nth)
    then have sl: "strlen r = Some (length (cstr r))" by (rule strlen_wf)
    obtain v1 where v1: "send_text_ansi (take (length (cstr r)) r) v = Some v1" "term_inv v1"
      using send_text_ansi_inv [OF "1.prems"(2)] by blast
    have "print_rows b (y + 1) e v1 = None"
      using "1.IH" [OF "1.prems"(4) rg sl v1(1) "1.prems"(1) v1(2)] "1.prems"(3,5) True by auto
    then show ?thesis using "1.prems"(4) rg sl v1(1) by (subst print_rows.simps) simp
  qed
qed

text \<open>
  \<^verbatim>\<open>print_buffer\<close> stays inside the buffer when \<open>endline\<close> is below \<open>MAXLINES\<close>. It
  clamps \<open>endline\<close> to \<open>MAXLINES\<close>, one past the last row, so a loop that starts at or
  below \<open>MAXLINES\<close> and is to end at or above it reads the row \<open>MAXLINES\<close>.
\<close>

lemma print_buffer_in_range:
  assumes "wf_buffer b" "term_inv v" "endline < int MAXLINES"
  shows "\<exists>r u v'. print_buffer b startline endline updowntoggle v = Some (r, u, v')"
proof -
  have t: "term_inv (v\<lparr>win_main := win_main v @ [WClearMain]\<rparr>)"
    using assms(2) by (simp add: term_inv_def)
  from print_rows_in_range [OF assms(1) t, of "if startline < 0 then 0 else startline" endline] assms(3)
  show ?thesis by (auto simp: print_buffer_def Let_def)
qed

lemma print_buffer_past_end:
  assumes "wf_buffer b" "term_inv v" "startline \<le> endline" "int MAXLINES \<le> endline"
    and "startline \<le> int MAXLINES"
  shows "print_buffer b startline endline updowntoggle v = None"
proof -
  have t: "term_inv (v\<lparr>win_main := win_main v @ [WClearMain]\<rparr>)"
    using assms(2) by (simp add: term_inv_def)
  have "print_rows b (if startline < 0 then 0 else startline)
      (if endline > int MAXLINES then int MAXLINES else endline)
      (v\<lparr>win_main := win_main v @ [WClearMain]\<rparr>) = None"
    using assms(3-5) by (intro print_rows_past_end [OF assms(1) t]) auto
  then show ?thesis using assms(3-5) by (auto simp: print_buffer_def Let_def)
qed

lemma print_buffer_early_return:
  "max 0 startline > endline \<Longrightarrow>
   print_buffer b startline endline updowntoggle v
     = Some (1, updowntoggle, v\<lparr>win_main := win_main v @ [WClearMain]\<rparr>)"
  by (auto simp: print_buffer_def Let_def)

text \<open>
  Claim C5. \<^verbatim>\<open>print_buffer\<close> clamps both indices to the rows \<open>0 .. MAXLINES - 1\<close> before it
  reads a row, and never reads past the last row. The source clamps \<open>endline\<close> to
  \<open>MAXLINES\<close> and does not clamp \<open>startline\<close> from above, and its loop runs up to
  \<open>endline\<close> inclusive: scrolled down to \<^verbatim>\<open>windowpos = 100\<close> on a screen of 24 lines the call
  is \<^verbatim>\<open>print_buffer(sbuffer, 100, 121)\<close>, which reads \<^verbatim>\<open>sbuffer[100]\<close>, a row the buffer does
  not have; so does \<^verbatim>\<open>print_buffer(sbuffer, 0, 100)\<close>, where \<open>0 .. 99\<close> is read safely.
\<close>

theorem print_buffer_reads_row_100:
  "print_buffer sbuffer_zero 100 121 0 vt_init = None
   \<and> print_buffer sbuffer_zero 0 100 0 vt_init = None
   \<and> (\<exists>r u v. print_buffer sbuffer_zero 0 99 0 vt_init = Some (r, u, v))
   \<and> row_get sbuffer_zero 100 = None"
proof -
  have a: "print_buffer sbuffer_zero 100 121 0 vt_init = None"
    by (rule print_buffer_past_end [OF wf_sbuffer_zero vt_init_inv]) (simp_all add: MAXLINES_def)
  have b: "print_buffer sbuffer_zero 0 100 0 vt_init = None"
    by (rule print_buffer_past_end [OF wf_sbuffer_zero vt_init_inv]) (simp_all add: MAXLINES_def)
  have c: "\<exists>r u v. print_buffer sbuffer_zero 0 99 0 vt_init = Some (r, u, v)"
    by (rule print_buffer_in_range [OF wf_sbuffer_zero vt_init_inv]) (simp add: MAXLINES_def)
  have d: "row_get sbuffer_zero 100 = None"
    by (simp add: row_get_def sbuffer_zero_def MAXLINES_def)
  from a b c d show ?thesis by blast
qed

text \<open>
  With \<open>endline\<close> below \<open>MAXLINES\<close>, \<^verbatim>\<open>print_buffer\<close> reads rows of the buffer only and
  returns.
\<close>

theorem print_buffer_safe_below_capacity:
  assumes "wf_buffer b" "term_inv v" "endline < int MAXLINES"
  shows "\<exists>r u v'. print_buffer b startline endline updowntoggle v = Some (r, u, v') \<and> term_inv v'"
proof -
  have t: "term_inv (v\<lparr>win_main := win_main v @ [WClearMain]\<rparr>)"
    using assms(2) by (simp add: term_inv_def)
  from print_rows_in_range [OF assms(1) t, of "if startline < 0 then 0 else startline" endline] assms(3) t
  show ?thesis by (auto simp: print_buffer_def Let_def)
qed

theorem print_buffer_safe_below_capacity_witness:
  "wf_buffer sbuffer_zero \<and> term_inv vt_init \<and> (22::int) < int MAXLINES
   \<and> (\<exists>r u v'. print_buffer sbuffer_zero 0 22 0 vt_init = Some (r, u, v') \<and> term_inv v')"
proof -
  have lt: "(22::int) < int MAXLINES" by (simp add: MAXLINES_def)
  from print_buffer_safe_below_capacity [OF wf_sbuffer_zero vt_init_inv lt, of 0 0]
    wf_sbuffer_zero vt_init_inv lt
  show ?thesis by blast
qed

end
